theory Spec2Isabelle
  imports Complex_Main
begin

section \<open>Data model (src/server.js, schemas)\<close>

text \<open>
  A populated user reference as the balance handler reads it: the identifier
  (\<^verbatim>\<open>_id.toString()\<close>, here \<open>uid\<close>) and the display name.
\<close>

record user =
  uid :: string
  username :: string

text \<open>
  The handlers read only the UTC year and month of an expense's date
  (\<^verbatim>\<open>$year\<close>, \<^verbatim>\<open>$month\<close>).
\<close>

record date =
  year :: int
  month :: nat

text \<open>
  \<^verbatim>\<open>ExpenseSchema\<close>, for an expense whose payer reference resolved to a user.
  Amounts are JavaScript numbers in the source; the model computes with exact
  rationals, so no rounding of a share is modelled. A populated document whose
  \<^verbatim>\<open>paidBy\<close> is \<^verbatim>\<open>null\<close> is a \<open>populated_expense\<close>, below.
\<close>

record expense =
  description :: string
  amount :: rat
  category :: string
  paidBy :: user
  participants :: "user list"
  date :: date

text \<open>
  A document as \<^verbatim>\<open>Expense.find(...).populate("paidBy").populate("participants")\<close>
  returns it. The stored \<^verbatim>\<open>paidBy\<close> reference is required by the schema, but
  nothing checks that it names an existing user, and \<^verbatim>\<open>populate\<close> sets the
  field to \<^verbatim>\<open>null\<close> when it does not; unresolved participants are left out of
  the populated array.
\<close>

record populated_expense =
  p_description :: string
  p_amount :: rat
  p_category :: string
  p_paidBy :: "user option"
  p_participants :: "user list"
  p_date :: date

section \<open>JavaScript objects with string keys\<close>

text \<open>
  An object is a list of key/value pairs in insertion order, which is the order
  \<^verbatim>\<open>Object.keys\<close> enumerates string keys in. Assigning to an existing key keeps
  its position; assigning to a new key appends it.
\<close>

type_synonym 'v obj = "(string \<times> 'v) list"

fun obj_get :: "'v obj \<Rightarrow> string \<Rightarrow> 'v option" where
  "obj_get [] k = None"
| "obj_get ((k', v) # kvs) k = (if k' = k then Some v else obj_get kvs k)"

fun obj_set :: "string \<Rightarrow> 'v \<Rightarrow> 'v obj \<Rightarrow> 'v obj" where
  "obj_set k v [] = [(k, v)]"
| "obj_set k v ((k', v') # kvs) =
     (if k' = k then (k, v) # kvs else (k', v') # obj_set k v kvs)"

definition obj_keys :: "'v obj \<Rightarrow> string list" where
  "obj_keys kvs = map fst kvs"

section \<open>Balance handler: accumulation (server.js lines 121-130)\<close>

type_synonym ledger = "rat obj obj"

text \<open>\<^verbatim>\<open>balances[a] || {}\<close>: an absent row reads as the empty object.\<close>

definition row :: "ledger \<Rightarrow> string \<Rightarrow> rat obj" where
  "row b a = (case obj_get b a of None \<Rightarrow> [] | Some r \<Rightarrow> r)"

text \<open>\<^verbatim>\<open>balances[a][c]\<close> where the row exists; \<open>None\<close> is \<^verbatim>\<open>undefined\<close>.\<close>

definition ledger_get :: "ledger \<Rightarrow> string \<Rightarrow> string \<Rightarrow> rat option" where
  "ledger_get b a c = obj_get (row b a) c"

text \<open>
  \<^verbatim>\<open>balances[a] = balances[a] || {}; balances[a][c] = (balances[a][c] || 0) + x\<close>.
  \<^verbatim>\<open>v || 0\<close> is \<open>v\<close> for a nonzero number and \<open>0\<close> for \<open>0\<close> and \<^verbatim>\<open>undefined\<close>.
\<close>

definition or_zero :: "rat option \<Rightarrow> rat" where
  "or_zero v = (case v of None \<Rightarrow> 0 | Some x \<Rightarrow> if x = 0 then 0 else x)"

definition add_debt :: "ledger \<Rightarrow> string \<Rightarrow> string \<Rightarrow> rat \<Rightarrow> ledger" where
  "add_debt b a c x =
     (let r = row b a
      in obj_set a (obj_set c (or_zero (obj_get r c) + x) r) b)"

text \<open>The body of the inner \<^verbatim>\<open>forEach\<close> over the participants of one expense.\<close>

definition participant_step :: "string \<Rightarrow> rat \<Rightarrow> ledger \<Rightarrow> user \<Rightarrow> ledger" where
  "participant_step payer amountPerPerson b participant =
     (let participantId = uid participant
      in if payer \<noteq> participantId
         then add_debt (add_debt b participantId payer amountPerPerson)
                payer participantId (- amountPerPerson)
         else b)"

text \<open>
  The body of the outer \<^verbatim>\<open>forEach\<close>, for an expense whose payer resolved (the
  read of \<^verbatim>\<open>expense.paidBy._id\<close> on a \<^verbatim>\<open>null\<close> payer throws; that path is
  \<open>expense_step_populated\<close>, below). With no participants the quotient is not
  a finite number in JavaScript and \<open>0\<close> in HOL; it is then never used, because
  the inner loop has no iteration.
\<close>

definition expense_step :: "ledger \<Rightarrow> expense \<Rightarrow> ledger" where
  "expense_step b e =
     (let payer = uid (paidBy e);
          amountPerPerson = amount e / of_nat (length (participants e))
      in foldl (participant_step payer amountPerPerson) b (participants e))"

definition accumulate :: "expense list \<Rightarrow> ledger" where
  "accumulate expenses = foldl expense_step [] expenses"

section \<open>Balance handler: formatting (server.js lines 131-146)\<close>

text \<open>
  A \<^verbatim>\<open>TypeError\<close> raised inside the handler is caught and answered with
  status 500.
\<close>

datatype error = TypeError

text \<open>
  One element of \<^verbatim>\<open>formattedBalances\<close>: \<^verbatim>\<open>{ owes, amount, user }\<close>. The
  fields \<open>amount\<close> and \<open>user\<close> are renamed, the names being taken.
\<close>

record balance_entry =
  owes :: bool
  bal_amount :: rat
  bal_user :: user

definition has_participant :: "string \<Rightarrow> expense \<Rightarrow> bool" where
  "has_participant k e = list_ex (\<lambda>p. uid p = k) (participants e)"

definition paid_by :: "string \<Rightarrow> expense \<Rightarrow> bool" where
  "paid_by k e = (uid (paidBy e) = k)"

definition involves :: "string \<Rightarrow> expense \<Rightarrow> bool" where
  "involves k e = (paid_by k e \<or> has_participant k e)"

definition is_user :: "string \<Rightarrow> user \<Rightarrow> bool" where
  "is_user k p = (uid p = k)"

text \<open>
  \<^verbatim>\<open>expenses.find(e => paidBy is k || participants.some(p is k))
       .participants.find(p is k)
     || expenses.find(e => paidBy is k).paidBy\<close>.
  Reading a property of \<^verbatim>\<open>undefined\<close> throws.
\<close>

definition find_user :: "expense list \<Rightarrow> string \<Rightarrow> error + user" where
  "find_user expenses k =
     (case find (involves k) expenses of
        None \<Rightarrow> Inl TypeError
      | Some e \<Rightarrow>
          (case find (is_user k) (participants e) of
             Some p \<Rightarrow> Inr p
           | None \<Rightarrow>
               (case find (paid_by k) expenses of
                  None \<Rightarrow> Inl TypeError
                | Some e' \<Rightarrow> Inr (paidBy e'))))"

text \<open>
  First loop, over \<^verbatim>\<open>Object.keys(balances[userId] || {})\<close>; \<open>out\<close> is
  \<^verbatim>\<open>formattedBalances\<close> so far. A comparison of \<^verbatim>\<open>undefined\<close> with 0 is false.
\<close>

fun owes_loop ::
  "expense list \<Rightarrow> ledger \<Rightarrow> string \<Rightarrow> string list \<Rightarrow> balance_entry list
     \<Rightarrow> error + balance_entry list" where
  "owes_loop expenses b userId [] out = Inr out"
| "owes_loop expenses b userId (otherUserId # ks) out =
     (case ledger_get b userId otherUserId of
        None \<Rightarrow> owes_loop expenses b userId ks out
      | Some amt \<Rightarrow>
          if amt > 0 then
            (case find_user expenses otherUserId of
               Inl err \<Rightarrow> Inl err
             | Inr u \<Rightarrow>
                 owes_loop expenses b userId ks
                   (out @ [\<lparr>owes = True, bal_amount = amt, bal_user = u\<rparr>]))
          else owes_loop expenses b userId ks out)"

text \<open>
  \<^verbatim>\<open>balances[otherUserId][userId]\<close> used as a condition: true for a defined,
  nonzero number.
\<close>

definition truthy :: "rat option \<Rightarrow> bool" where
  "truthy v = (case v of None \<Rightarrow> False | Some x \<Rightarrow> x \<noteq> 0)"

text \<open>Second loop, over \<^verbatim>\<open>Object.keys(balances)\<close>.\<close>

fun owed_loop ::
  "expense list \<Rightarrow> ledger \<Rightarrow> string \<Rightarrow> string list \<Rightarrow> balance_entry list
     \<Rightarrow> error + balance_entry list" where
  "owed_loop expenses b userId [] out = Inr out"
| "owed_loop expenses b userId (otherUserId # ks) out =
     (if otherUserId \<noteq> userId \<and> truthy (ledger_get b otherUserId userId) then
        (case ledger_get b otherUserId userId of
           None \<Rightarrow> owed_loop expenses b userId ks out
         | Some v \<Rightarrow>
             (let amt = - v
              in if amt > 0 then
                   (case find_user expenses otherUserId of
                      Inl err \<Rightarrow> Inl err
                    | Inr u \<Rightarrow>
                        owed_loop expenses b userId ks
                          (out @ [\<lparr>owes = False, bal_amount = amt, bal_user = u\<rparr>]))
                 else owed_loop expenses b userId ks out))
      else owed_loop expenses b userId ks out)"

text \<open>
  The handler's computation on expenses whose payers resolved: accumulation, then
  the two loops. On populated documents, where the payer can be \<^verbatim>\<open>null\<close>, it is
  \<open>computeBalances_populated\<close>, below.
\<close>

definition computeBalances :: "string \<Rightarrow> expense list \<Rightarrow> error + balance_entry list" where
  "computeBalances userId expenses =
     (let balances = accumulate expenses
      in case owes_loop expenses balances userId (obj_keys (row balances userId)) [] of
           Inl err \<Rightarrow> Inl err
         | Inr out \<Rightarrow> owed_loop expenses balances userId (obj_keys balances) out)"

text \<open>
  \<^verbatim>\<open>Expense.find({ $or: [{ paidBy: userId }, { participants: userId }] })\<close>: the
  stored expenses the user paid or takes part in, in stored order.
\<close>

definition findVisible :: "string \<Rightarrow> expense list \<Rightarrow> expense list" where
  "findVisible userId store = filter (involves userId) store"

definition balance_handler :: "string \<Rightarrow> expense list \<Rightarrow> error + balance_entry list" where
  "balance_handler userId store = computeBalances userId (findVisible userId store)"

section \<open>Balance handler: documents whose payer does not resolve\<close>

text \<open>
  \<^verbatim>\<open>expense.paidBy._id.toString()\<close> (line 123): reading \<^verbatim>\<open>_id\<close> of \<^verbatim>\<open>null\<close>
  throws a \<^verbatim>\<open>TypeError\<close>.
\<close>

definition paidBy_id :: "populated_expense \<Rightarrow> error + string" where
  "paidBy_id d = (case p_paidBy d of None \<Rightarrow> Inl TypeError | Some p \<Rightarrow> Inr (uid p))"

text \<open>
  The body of the outer \<^verbatim>\<open>forEach\<close> on a populated document: the payer is read
  first, then the share is computed and the participants are processed.
\<close>

definition expense_step_populated :: "ledger \<Rightarrow> populated_expense \<Rightarrow> error + ledger" where
  "expense_step_populated b d =
     (case paidBy_id d of
        Inl err \<Rightarrow> Inl err
      | Inr payer \<Rightarrow>
          (let amountPerPerson = p_amount d / of_nat (length (p_participants d))
           in Inr (foldl (participant_step payer amountPerPerson) b (p_participants d))))"

text \<open>The outer \<^verbatim>\<open>forEach\<close>: a throw ends the loop and the handler's \<^verbatim>\<open>try\<close> block.\<close>

fun accumulate_populated :: "ledger \<Rightarrow> populated_expense list \<Rightarrow> error + ledger" where
  "accumulate_populated b [] = Inr b"
| "accumulate_populated b (d # ds) =
     (case expense_step_populated b d of
        Inl err \<Rightarrow> Inl err
      | Inr b' \<Rightarrow> accumulate_populated b' ds)"

text \<open>A populated document as an \<open>expense\<close>, when its payer resolved.\<close>

definition resolved :: "populated_expense \<Rightarrow> expense option" where
  "resolved d =
     (case p_paidBy d of
        None \<Rightarrow> None
      | Some p \<Rightarrow>
          Some \<lparr>description = p_description d, amount = p_amount d, category = p_category d,
                paidBy = p, participants = p_participants d, date = p_date d\<rparr>)"

text \<open>The two formatting loops of the handler, on the ledger \<open>balances\<close>.\<close>

definition format_balances ::
  "string \<Rightarrow> expense list \<Rightarrow> ledger \<Rightarrow> error + balance_entry list" where
  "format_balances userId expenses balances =
     (case owes_loop expenses balances userId (obj_keys (row balances userId)) [] of
        Inl err \<Rightarrow> Inl err
      | Inr out \<Rightarrow> owed_loop expenses balances userId (obj_keys balances) out)"

text \<open>
  The handler on the populated documents: accumulation, then formatting. The
  callbacks of \<^verbatim>\<open>expenses.find\<close> in the formatting loops read
  \<^verbatim>\<open>e.paidBy._id\<close> too; they run only after the accumulation has read the payer of
  every document without a throw.
\<close>

definition computeBalances_populated ::
  "string \<Rightarrow> populated_expense list \<Rightarrow> error + balance_entry list" where
  "computeBalances_populated userId docs =
     (case accumulate_populated [] docs of
        Inl err \<Rightarrow> Inl err
      | Inr balances \<Rightarrow>
          (case those (map resolved docs) of
             None \<Rightarrow> Inl TypeError
           | Some expenses \<Rightarrow> format_balances userId expenses balances))"

section \<open>Statistics handler: monthly totals (server.js line 154)\<close>

text \<open>
  One document of the monthly aggregation:
  \<^verbatim>\<open>{ _id: { year, month }, total }\<close>; \<open>group_id\<close> is the pair (year, month).
\<close>

record month_group =
  group_id :: "int \<times> nat"
  total :: rat

text \<open>\<^verbatim>\<open>{ year: { $year: "$date" }, month: { $month: "$date" } }\<close>\<close>

definition month_id :: "expense \<Rightarrow> int \<times> nat" where
  "month_id e = (year (date e), month (date e))"

text \<open>
  \<^verbatim>\<open>$group\<close> with \<^verbatim>\<open>total: { $sum: "$amount" }\<close>: the amount is added to the
  group of its month, a month not seen yet opens a new group. The order of the
  groups is not specified by the database; the model keeps them in order of first
  occurrence, and the sort stage that follows fixes the order.
\<close>

fun group_add :: "int \<times> nat \<Rightarrow> rat \<Rightarrow> month_group list \<Rightarrow> month_group list" where
  "group_add k a [] = [\<lparr>group_id = k, total = a\<rparr>]"
| "group_add k a (g # gs) =
     (if group_id g = k then g\<lparr>total := total g + a\<rparr> # gs else g # group_add k a gs)"

definition group_stage :: "expense list \<Rightarrow> month_group list" where
  "group_stage es = foldl (\<lambda>gs e. group_add (month_id e) (amount e) gs) [] es"

text \<open>
  \<^verbatim>\<open>$sort: { "_id.year": -1, "_id.month": -1 }\<close>: descending by year, then
  descending by month.
\<close>

definition ym_ge :: "int \<times> nat \<Rightarrow> int \<times> nat \<Rightarrow> bool" where
  "ym_ge a b \<longleftrightarrow> fst a > fst b \<or> (fst a = fst b \<and> snd a \<ge> snd b)"

definition ym_gt :: "int \<times> nat \<Rightarrow> int \<times> nat \<Rightarrow> bool" where
  "ym_gt a b \<longleftrightarrow> fst a > fst b \<or> (fst a = fst b \<and> snd a > snd b)"

fun insert_desc :: "month_group \<Rightarrow> month_group list \<Rightarrow> month_group list" where
  "insert_desc g [] = [g]"
| "insert_desc g (h # hs) =
     (if ym_ge (group_id g) (group_id h) then g # h # hs else h # insert_desc g hs)"

definition sort_stage :: "month_group list \<Rightarrow> month_group list" where
  "sort_stage gs = foldr insert_desc gs []"

text \<open>\<^verbatim>\<open>$limit: 12\<close>\<close>

definition limit_stage :: "nat \<Rightarrow> month_group list \<Rightarrow> month_group list" where
  "limit_stage n gs = take n gs"

text \<open>
  The \<^verbatim>\<open>monthlyExpenses\<close> pipeline of the statistics handler, after the
  \<^verbatim>\<open>$match\<close> stage, and the whole pipeline over the stored expenses.
\<close>

definition monthly_pipeline :: "expense list \<Rightarrow> month_group list" where
  "monthly_pipeline es = limit_stage 12 (sort_stage (group_stage es))"

definition monthlyExpenses :: "string \<Rightarrow> expense list \<Rightarrow> month_group list" where
  "monthlyExpenses userId store = monthly_pipeline (findVisible userId store)"

section \<open>Predicates and abbreviations used in the statements\<close>

text \<open>The two directions of every pair hold opposite amounts, or are both absent.\<close>

definition antisym_ledger :: "ledger \<Rightarrow> bool" where
  "antisym_ledger b \<longleftrightarrow> (\<forall>a c. ledger_get b c a = map_option uminus (ledger_get b a c))"

text \<open>No user has a ledger entry against themselves.\<close>

definition no_self_edge :: "ledger \<Rightarrow> bool" where
  "no_self_edge b \<longleftrightarrow> (\<forall>a. ledger_get b a a = None)"

text \<open>Some expense has one of the two users as payer and the other as participant.\<close>

definition linked :: "expense list \<Rightarrow> string \<Rightarrow> string \<Rightarrow> bool" where
  "linked es a c \<longleftrightarrow>
     (\<exists>e\<in>set es. (paid_by a e \<and> has_participant c e) \<or> (paid_by c e \<and> has_participant a e))"

text \<open>
  The user object the lookup yields, for stating what the loops push; the second
  case is never reached for a key of the ledger (lemma \<open>find_user_looked_up\<close>).
\<close>

definition looked_up :: "expense list \<Rightarrow> string \<Rightarrow> user" where
  "looked_up es k = (case find_user es k of Inr u \<Rightarrow> u | Inl err \<Rightarrow> \<lparr>uid = k, username = []\<rparr>)"

text \<open>The entries the first and the second loop push for a key \<open>k\<close>.\<close>

definition owes_entry :: "expense list \<Rightarrow> ledger \<Rightarrow> string \<Rightarrow> string \<Rightarrow> balance_entry" where
  "owes_entry es b u k =
     \<lparr>owes = True, bal_amount = or_zero (ledger_get b u k), bal_user = looked_up es k\<rparr>"

definition owed_entry :: "expense list \<Rightarrow> ledger \<Rightarrow> string \<Rightarrow> string \<Rightarrow> balance_entry" where
  "owed_entry es b u k =
     \<lparr>owes = False, bal_amount = - or_zero (ledger_get b k u), bal_user = looked_up es k\<rparr>"

text \<open>
  The user objects of an expense list, and the property that populated references
  with one identifier are one object: all are read from the one users collection.
\<close>

definition users_of :: "expense list \<Rightarrow> user list" where
  "users_of es = concat (map (\<lambda>e. paidBy e # participants e) es)"

definition consistent_users :: "expense list \<Rightarrow> bool" where
  "consistent_users es \<longleftrightarrow>
     list_all (\<lambda>p. list_all (\<lambda>q. uid p = uid q \<longrightarrow> p = q) (users_of es)) (users_of es)"

text \<open>The payer is the only participant.\<close>

definition sole_participant :: "expense \<Rightarrow> bool" where
  "sole_participant e \<longleftrightarrow> map uid (participants e) = [uid (paidBy e)]"

text \<open>The keys of \<open>b'\<close> are those of \<open>b\<close>, in order, followed by new ones.\<close>

definition extends_keys :: "ledger \<Rightarrow> ledger \<Rightarrow> bool" where
  "extends_keys b b' \<longleftrightarrow>
     (\<exists>ext. obj_keys b' = obj_keys b @ ext \<and> (\<forall>k\<in>set ext. k \<notin> set (obj_keys b)))"

text \<open>
  A positive \<^verbatim>\<open>balances[u][c]\<close> is an amount \<open>u\<close> owes \<open>c\<close>, a negative one an
  amount \<open>c\<close> owes \<open>u\<close>. The net position of \<open>u\<close> is what \<open>u\<close> is owed minus what
  \<open>u\<close> owes, over the row of \<open>u\<close>.
\<close>

definition owed_to :: "ledger \<Rightarrow> string \<Rightarrow> rat" where
  "owed_to b u = sum_list (map (\<lambda>kv. if snd kv < 0 then - snd kv else 0) (row b u))"

definition owed_by :: "ledger \<Rightarrow> string \<Rightarrow> rat" where
  "owed_by b u = sum_list (map (\<lambda>kv. if 0 < snd kv then snd kv else 0) (row b u))"

definition net_position :: "ledger \<Rightarrow> string \<Rightarrow> rat" where
  "net_position b u = owed_to b u - owed_by b u"

text \<open>The sum of all amounts of a row, and of all rows of a ledger.\<close>

definition row_sum :: "rat obj \<Rightarrow> rat" where
  "row_sum r = sum_list (map snd r)"

definition ledger_sum :: "ledger \<Rightarrow> rat" where
  "ledger_sum b = sum_list (map (\<lambda>kr. row_sum (snd kr)) b)"

text \<open>The sum of the amounts of the expenses of one month.\<close>

definition month_sum :: "expense list \<Rightarrow> int \<times> nat \<Rightarrow> rat" where
  "month_sum es k = sum_list (map amount (filter (\<lambda>e. month_id e = k) es))"

text \<open>The total of the first group with a given id, 0 when there is none.\<close>

definition group_total :: "month_group list \<Rightarrow> int \<times> nat \<Rightarrow> rat" where
  "group_total gs k = (case find (\<lambda>g. group_id g = k) gs of None \<Rightarrow> 0 | Some g \<Rightarrow> total g)"

section \<open>Example data\<close>

definition user1 :: user where
  "user1 = \<lparr>uid = ''U1'', username = ''one''\<rparr>"

definition user2 :: user where
  "user2 = \<lparr>uid = ''U2'', username = ''two''\<rparr>"

definition user3 :: user where
  "user3 = \<lparr>uid = ''U3'', username = ''three''\<rparr>"

definition mk_expense :: "rat \<Rightarrow> user \<Rightarrow> user list \<Rightarrow> expense" where
  "mk_expense a p ps =
     \<lparr>description = ''dinner'', amount = a, category = ''Food'', paidBy = p,
      participants = ps, date = \<lparr>year = 2024, month = 5\<rparr>\<rparr>"

text \<open>Scenario 1 of the specification: 100 paid by U1, shared by U1 and U2.\<close>

definition scenario1 :: expense where
  "scenario1 = mk_expense 100 user1 [user1, user2]"

text \<open>Scenario 2: a second expense of 60 paid by U2 for the same two users.\<close>

definition scenario2 :: "expense list" where
  "scenario2 = [mk_expense 100 user1 [user1, user2], mk_expense 60 user2 [user1, user2]]"

text \<open>Scenario 3: 90 paid by U1, shared by U1, U2 and U3.\<close>

definition scenario3 :: expense where
  "scenario3 = mk_expense 90 user1 [user1, user2, user3]"

text \<open>Expenses that the creation endpoint would refuse: no participant, a negative amount.\<close>

definition no_participants :: expense where
  "no_participants = mk_expense 40 user2 []"

definition negative_amount :: expense where
  "negative_amount = mk_expense (- 100) user1 [user1, user2]"

text \<open>An expense paid by U3 for U3 alone, and one shared by U1 and U3 only.\<close>

definition alone :: expense where
  "alone = mk_expense 70 user3 [user3]"

definition unrelated :: expense where
  "unrelated = mk_expense 80 user3 [user1, user3]"

text \<open>An expense of a given amount and month.\<close>

definition mk_dated :: "rat \<Rightarrow> int \<Rightarrow> nat \<Rightarrow> expense" where
  "mk_dated a y m =
     \<lparr>description = ''taxi'', amount = a, category = ''Travel'', paidBy = user1,
      participants = [user1, user2], date = \<lparr>year = y, month = m\<rparr>\<rparr>"

text \<open>
  One expense of 10 in each month of 2024, a second one in March 2024, and one
  in December 2023: thirteen months.
\<close>

definition thirteen_months :: "expense list" where
  "thirteen_months =
     [mk_dated 10 2024 1, mk_dated 10 2024 2, mk_dated 10 2024 3, mk_dated 10 2024 4,
      mk_dated 20 2023 12, mk_dated 10 2024 5, mk_dated 10 2024 6, mk_dated 10 2024 7,
      mk_dated 10 2024 8, mk_dated 5 2024 3, mk_dated 10 2024 9, mk_dated 10 2024 10,
      mk_dated 10 2024 11, mk_dated 10 2024 12]"

text \<open>
  An expense as a populated document, and a populated document whose payer
  reference names no user.
\<close>

definition as_populated :: "expense \<Rightarrow> populated_expense" where
  "as_populated e =
     \<lparr>p_description = description e, p_amount = amount e, p_category = category e,
      p_paidBy = Some (paidBy e), p_participants = participants e, p_date = date e\<rparr>"

definition dangling_payer :: populated_expense where
  "dangling_payer =
     \<lparr>p_description = ''hotel'', p_amount = 120, p_category = ''Travel'', p_paidBy = None,
      p_participants = [user1, user2], p_date = \<lparr>year = 2024, month = 6\<rparr>\<rparr>"

section \<open>Objects and the ledger: basic facts\<close>

lemma obj_get_set: "obj_get (obj_set k v kvs) k' = (if k' = k then Some v else obj_get kvs k')"
  by (induction k v kvs rule: obj_set.induct) auto

lemma obj_get_None_iff: "obj_get kvs k = None \<longleftrightarrow> k \<notin> set (obj_keys kvs)"
  by (induction kvs k rule: obj_get.induct) (simp_all add: obj_keys_def)

lemma obj_keys_set:
  "obj_keys (obj_set k v kvs) = (if k \<in> set (obj_keys kvs) then obj_keys kvs else obj_keys kvs @ [k])"
  by (induction k v kvs rule: obj_set.induct) (simp_all add: obj_keys_def)

lemma row_add_debt:
  "row (add_debt b a c x) a' =
     (if a' = a then obj_set c (or_zero (ledger_get b a c) + x) (row b a) else row b a')"
  by (simp add: add_debt_def row_def obj_get_set ledger_get_def Let_def)

lemma ledger_get_add_debt:
  "ledger_get (add_debt b a c x) a' c' =
     (if a' = a \<and> c' = c then Some (or_zero (ledger_get b a c) + x) else ledger_get b a' c')"
  unfolding ledger_get_def row_add_debt by (simp add: obj_get_set ledger_get_def)

lemma obj_keys_add_debt:
  "obj_keys (add_debt b a c x) = (if a \<in> set (obj_keys b) then obj_keys b else obj_keys b @ [a])"
  by (simp add: add_debt_def Let_def obj_keys_set)

lemma ledger_get_participant_step:
  "ledger_get (participant_step payer s b p) a c =
     (if uid p = payer then ledger_get b a c
      else if a = uid p \<and> c = payer then Some (or_zero (ledger_get b (uid p) payer) + s)
      else if a = payer \<and> c = uid p then Some (or_zero (ledger_get b payer (uid p)) - s)
      else ledger_get b a c)"
  by (auto simp: participant_step_def Let_def ledger_get_add_debt)

lemma or_zero_simps [simp]: "or_zero None = 0" "or_zero (Some x) = x"
  by (simp_all add: or_zero_def)

lemma or_zero_uminus: "or_zero (map_option uminus v) = - or_zero v"
  by (cases v) simp_all

lemma foldl_invariant:
  assumes "P b" and "\<And>b x. x \<in> set xs \<Longrightarrow> P b \<Longrightarrow> P (f b x)"
  shows "P (foldl f b xs)"
  using assms by (induction xs arbitrary: b) auto

lemma antisym_participant_step:
  assumes "antisym_ledger b"
  shows "antisym_ledger (participant_step payer s b p)"
  unfolding antisym_ledger_def
proof (intro allI)
  fix a c
  from assms have sym: "\<And>a c. ledger_get b c a = map_option uminus (ledger_get b a c)"
    unfolding antisym_ledger_def by blast
  have oz: "or_zero (ledger_get b payer (uid p)) = - or_zero (ledger_get b (uid p) payer)"
    unfolding sym [where a = "uid p" and c = payer] by (rule or_zero_uminus)
  show "ledger_get (participant_step payer s b p) c a =
        map_option uminus (ledger_get (participant_step payer s b p) a c)"
  proof (cases "uid p = payer")
    case True
    then show ?thesis
      unfolding ledger_get_participant_step using sym [where a = a and c = c] by simp
  next
    case False
    consider "a = uid p \<and> c = payer" | "a = payer \<and> c = uid p"
      | "\<not> (a = uid p \<and> c = payer) \<and> \<not> (a = payer \<and> c = uid p)" by blast
    then show ?thesis
    proof cases
      case 1
      with False show ?thesis unfolding ledger_get_participant_step by (simp add: oz)
    next
      case 2
      with False show ?thesis unfolding ledger_get_participant_step by (simp add: oz)
    next
      case 3
      with False show ?thesis
        unfolding ledger_get_participant_step using sym [where a = a and c = c] by auto
    qed
  qed
qed

lemma no_self_participant_step:
  "no_self_edge b \<Longrightarrow> no_self_edge (participant_step payer s b p)"
  by (auto simp: no_self_edge_def ledger_get_participant_step)

lemma ledger_get_Nil [simp]: "ledger_get [] a c = None"
  by (simp add: ledger_get_def row_def)

lemma antisym_expense_step: "antisym_ledger b \<Longrightarrow> antisym_ledger (expense_step b e)"
  unfolding expense_step_def Let_def
  by (rule foldl_invariant) (simp_all add: antisym_participant_step)

lemma no_self_expense_step: "no_self_edge b \<Longrightarrow> no_self_edge (expense_step b e)"
  unfolding expense_step_def Let_def
  by (rule foldl_invariant) (simp_all add: no_self_participant_step)

lemma antisym_accumulate: "antisym_ledger (accumulate es)"
  unfolding accumulate_def
proof (rule foldl_invariant)
  show "antisym_ledger []" by (simp add: antisym_ledger_def)
qed (rule antisym_expense_step)

lemma no_self_accumulate: "no_self_edge (accumulate es)"
  unfolding accumulate_def
proof (rule foldl_invariant)
  show "no_self_edge []" by (simp add: no_self_edge_def)
qed (rule no_self_expense_step)


lemma has_participant_iff: "has_participant k e \<longleftrightarrow> k \<in> uid ` set (participants e)"
  by (auto simp: has_participant_def list_ex_iff)

lemma accumulate_snoc: "accumulate (es @ [e]) = expense_step (accumulate es) e"
  by (simp add: accumulate_def)

lemma linked_mono: "linked es a c \<Longrightarrow> linked (es @ es') a c"
  by (auto simp: linked_def)

lemma linked_participant_step:
  assumes "\<forall>a c. ledger_get b a c \<noteq> None \<longrightarrow> linked es a c"
    and "e \<in> set es" and "p \<in> set (participants e)"
  shows "\<forall>a c. ledger_get (participant_step (uid (paidBy e)) s b p) a c \<noteq> None \<longrightarrow> linked es a c"
proof (intro allI impI)
  fix a c
  assume present: "ledger_get (participant_step (uid (paidBy e)) s b p) a c \<noteq> None"
  have new: "linked es (uid p) (uid (paidBy e))" "linked es (uid (paidBy e)) (uid p)"
    using assms(2,3) by (auto simp: linked_def paid_by_def has_participant_iff)
  from present show "linked es a c"
    unfolding ledger_get_participant_step using assms(1) new
    by (auto split: if_splits)
qed

lemma linked_expense_step:
  assumes "\<forall>a c. ledger_get b a c \<noteq> None \<longrightarrow> linked es a c" and "e \<in> set es"
  shows "\<forall>a c. ledger_get (expense_step b e) a c \<noteq> None \<longrightarrow> linked es a c"
  unfolding expense_step_def Let_def
  by (rule foldl_invariant [where P = "\<lambda>b. \<forall>a c. ledger_get b a c \<noteq> None \<longrightarrow> linked es a c"])
     (use assms in \<open>auto intro: linked_participant_step [rule_format]\<close>)

lemma linked_accumulate: "ledger_get (accumulate es) a c \<noteq> None \<Longrightarrow> linked es a c"
proof (induction es arbitrary: a c rule: rev_induct)
  case Nil
  then show ?case by (simp add: accumulate_def)
next
  case (snoc e es)
  have "\<forall>a c. ledger_get (accumulate es) a c \<noteq> None \<longrightarrow> linked (es @ [e]) a c"
    using snoc.IH linked_mono by blast
  then have "\<forall>a c. ledger_get (expense_step (accumulate es) e) a c \<noteq> None \<longrightarrow> linked (es @ [e]) a c"
    by (rule linked_expense_step) simp
  with snoc.prems show ?case by (simp add: accumulate_snoc)
qed

lemma linked_involves: "linked es a c \<Longrightarrow> (\<exists>e\<in>set es. involves a e) \<and> (\<exists>e\<in>set es. involves c e)"
  by (auto simp: linked_def involves_def)

lemma find_is_user: "find (is_user k) ps = Some p \<Longrightarrow> uid p = k"
  by (induction ps) (auto simp: is_user_def split: if_splits)

lemma find_paid_by: "find (paid_by k) es = Some e \<Longrightarrow> uid (paidBy e) = k"
  by (induction es) (auto simp: paid_by_def split: if_splits)

lemma find_user_uid: "find_user es k = Inr u \<Longrightarrow> uid u = k"
  by (auto simp: find_user_def split: option.splits dest: find_is_user find_paid_by)

lemma find_Some_ex: "\<exists>x\<in>set xs. P x \<Longrightarrow> \<exists>y. find P xs = Some y \<and> P y \<and> y \<in> set xs"
  by (induction xs) auto

lemma find_user_ok:
  assumes "\<exists>e\<in>set es. involves k e"
  shows "\<exists>u. find_user es k = Inr u"
proof -
  from assms obtain e where e: "find (involves k) es = Some e" "involves k e" "e \<in> set es"
    using find_Some_ex [of es "involves k"] by blast
  show ?thesis
  proof (cases "find (is_user k) (participants e)")
    case (Some p)
    with e show ?thesis by (simp add: find_user_def)
  next
    case None
    then have "\<not> has_participant k e"
      by (auto simp: find_None_iff has_participant_iff is_user_def)
    with e have "paid_by k e" by (simp add: involves_def)
    with e obtain e' where "find (paid_by k) es = Some e'"
      using find_Some_ex [of es "paid_by k"] by blast
    with None e show ?thesis by (simp add: find_user_def)
  qed
qed

lemma find_user_looked_up:
  "\<exists>e\<in>set es. involves k e \<Longrightarrow> find_user es k = Inr (looked_up es k)"
  using find_user_ok [of es k] by (auto simp: looked_up_def)

lemma owes_loop_char:
  assumes "\<forall>k\<in>set ks. ledger_get b u k \<noteq> None \<longrightarrow> find_user es k = Inr (looked_up es k)"
  shows "owes_loop es b u ks out =
           Inr (out @ map (owes_entry es b u) (filter (\<lambda>k. 0 < or_zero (ledger_get b u k)) ks))"
  using assms
  by (induction ks arbitrary: out) (auto simp: owes_entry_def split: option.splits)

lemma owed_loop_char:
  assumes "\<forall>k\<in>set ks. ledger_get b k u \<noteq> None \<longrightarrow> find_user es k = Inr (looked_up es k)"
  shows "owed_loop es b u ks out =
           Inr (out @ map (owed_entry es b u)
                  (filter (\<lambda>k. k \<noteq> u \<and> or_zero (ledger_get b k u) < 0) ks))"
  using assms
  by (induction ks arbitrary: out)
     (auto simp: owed_entry_def truthy_def Let_def split: option.splits)

lemma computeBalances_char:
  "computeBalances u es =
     Inr (map (owes_entry es (accumulate es) u)
            (filter (\<lambda>k. 0 < or_zero (ledger_get (accumulate es) u k))
               (obj_keys (row (accumulate es) u)))
          @ map (owed_entry es (accumulate es) u)
            (filter (\<lambda>k. k \<noteq> u \<and> or_zero (ledger_get (accumulate es) k u) < 0)
               (obj_keys (accumulate es))))"
proof -
  have ok: "ledger_get (accumulate es) a c \<noteq> None \<Longrightarrow>
            find_user es a = Inr (looked_up es a) \<and> find_user es c = Inr (looked_up es c)" for a c
    using linked_involves [OF linked_accumulate] find_user_looked_up by blast
  have 1: "\<forall>k\<in>set ks. ledger_get (accumulate es) u k \<noteq> None \<longrightarrow> find_user es k = Inr (looked_up es k)" for ks
    using ok by blast
  have 2: "\<forall>k\<in>set ks. ledger_get (accumulate es) k u \<noteq> None \<longrightarrow> find_user es k = Inr (looked_up es k)" for ks
    using ok by blast
  show ?thesis
    unfolding computeBalances_def Let_def
    by (simp add: owes_loop_char [OF 1] owed_loop_char [OF 2])
qed

section \<open>The ledger is anti-symmetric and has no self-edge\<close>

lemma uid_looked_up: "uid (looked_up es k) = k"
  by (auto simp: looked_up_def split: sum.splits dest: find_user_uid)

lemma participant_step_other_row:
  "uid q \<noteq> uid p \<Longrightarrow>
     ledger_get (participant_step payer s b p) (uid q) payer = ledger_get b (uid q) payer"
  by (auto simp: ledger_get_participant_step)

lemma foldl_participant_step_other:
  "uid q \<notin> uid ` set ps \<Longrightarrow>
     ledger_get (foldl (participant_step payer s) b ps) (uid q) payer = ledger_get b (uid q) payer"
  by (induction ps arbitrary: b) (simp_all add: participant_step_other_row)

lemma share_recorded:
  assumes "distinct (map uid ps)" and "q \<in> set ps" and "uid q \<noteq> payer"
  shows "ledger_get (foldl (participant_step payer s) b ps) (uid q) payer =
           Some (or_zero (ledger_get b (uid q) payer) + s)"
  using assms
proof (induction ps arbitrary: b)
  case Nil
  then show ?case by simp
next
  case (Cons p ps)
  show ?case
  proof (cases "q = p")
    case True
    with Cons.prems have "uid q \<notin> uid ` set ps" by auto
    then show ?thesis
      using True Cons.prems(3)
      by (simp add: foldl_participant_step_other ledger_get_participant_step)
  next
    case False
    with Cons.prems have qin: "q \<in> set ps" by simp
    from Cons.prems have "uid p \<notin> uid ` set ps" by simp
    with qin have "uid q \<noteq> uid p" by (metis imageI)
    note q = qin this
    from Cons.prems have "distinct (map uid ps)" by simp
    from Cons.IH [OF this q(1) Cons.prems(3)] q(2) show ?thesis
      by (simp add: participant_step_other_row)
  qed
qed

lemma share_of_single_expense:
  assumes "distinct (map uid (participants e))" and "q \<in> set (participants e)"
    and "uid q \<noteq> uid (paidBy e)"
  shows "ledger_get (accumulate [e]) (uid q) (uid (paidBy e)) =
           Some (amount e / of_nat (length (participants e)))"
  using share_recorded [OF assms, of _ "[]"]
  by (simp add: accumulate_def expense_step_def Let_def)

lemma self_participant_skipped: "uid p = payer \<Longrightarrow> participant_step payer s b p = b"
  by (simp add: participant_step_def Let_def)

lemma ledger_antisym:
  assumes "ledger_get (accumulate es) a c = Some v"
  shows "ledger_get (accumulate es) c a = Some (- v)"
proof -
  have "ledger_get (accumulate es) c a = map_option uminus (ledger_get (accumulate es) a c)"
    using antisym_accumulate [of es] unfolding antisym_ledger_def by blast
  with assms show ?thesis by simp
qed

lemma ledger_no_self: "ledger_get (accumulate es) a a = None"
  using no_self_accumulate [of es] unfolding no_self_edge_def by simp

lemma output_no_self:
  assumes "computeBalances u es = Inr out" and "x \<in> set out"
  shows "uid (bal_user x) \<noteq> u"
proof -
  from assms(1) have "out =
     map (owes_entry es (accumulate es) u)
            (filter (\<lambda>k. 0 < or_zero (ledger_get (accumulate es) u k))
               (obj_keys (row (accumulate es) u)))
          @ map (owed_entry es (accumulate es) u)
            (filter (\<lambda>k. k \<noteq> u \<and> or_zero (ledger_get (accumulate es) k u) < 0)
               (obj_keys (accumulate es)))"
    by (simp add: computeBalances_char)
  with assms(2) consider
      k where "x = owes_entry es (accumulate es) u k" "0 < or_zero (ledger_get (accumulate es) u k)"
    | k where "x = owed_entry es (accumulate es) u k" "k \<noteq> u"
    by auto
  then show ?thesis
  proof cases
    case 1
    from 1(2) have "k \<noteq> u" using ledger_no_self [of es u] by auto
    with 1(1) show ?thesis by (simp add: owes_entry_def uid_looked_up)
  next
    case 2
    then show ?thesis by (simp add: owed_entry_def uid_looked_up)
  qed
qed

text \<open>
  C4. After the accumulation has processed any expense list, an entry present for
  the ordered pair \<open>(a, c)\<close> is the negation of the entry for \<open>(c, a)\<close>, and no entry
  \<open>(a, a)\<close> is recorded. A participant who is the payer leaves the ledger unchanged,
  while still counting in the denominator of the share: with the payer among the
  (distinct) participants, every other participant owes the payer the amount divided
  by the number of all participants. No entry of the output names the requesting
  user as counterparty.
\<close>

theorem ledger_antisymmetric_without_self_edges:
  "(ledger_get (accumulate es) a c = Some v \<longrightarrow> ledger_get (accumulate es) c a = Some (- v))
   \<and> ledger_get (accumulate es) a a = None
   \<and> (uid p = payer \<longrightarrow> participant_step payer s b p = b)
   \<and> (paidBy e \<in> set (participants e) \<and> distinct (map uid (participants e))
        \<and> q \<in> set (participants e) \<and> uid q \<noteq> uid (paidBy e)
      \<longrightarrow> ledger_get (accumulate [e]) (uid q) (uid (paidBy e))
            = Some (amount e / of_nat (length (participants e))))
   \<and> (computeBalances u es = Inr out \<longrightarrow> (\<forall>x\<in>set out. uid (bal_user x) \<noteq> u))"
  using ledger_antisym ledger_no_self self_participant_skipped share_of_single_expense
    output_no_self
  by blast

theorem ledger_antisymmetric_without_self_edges_witness:
  "ledger_get (accumulate [scenario1]) ''U2'' ''U1'' = Some 50
   \<and> ledger_get (accumulate [scenario1]) ''U1'' ''U2'' = Some (- 50)
   \<and> ledger_get (accumulate [scenario1]) ''U2'' ''U2'' = None
   \<and> uid user1 = ''U1'' \<and> participant_step ''U1'' 50 [] user1 = []
   \<and> paidBy scenario1 \<in> set (participants scenario1)
   \<and> distinct (map uid (participants scenario1))
   \<and> user2 \<in> set (participants scenario1) \<and> uid user2 \<noteq> uid (paidBy scenario1)
   \<and> ledger_get (accumulate [scenario1]) (uid user2) (uid (paidBy scenario1))
       = Some (amount scenario1 / of_nat (length (participants scenario1)))
   \<and> computeBalances ''U2'' [scenario1] =
       Inr [\<lparr>owes = True, bal_amount = 50, bal_user = user1\<rparr>,
            \<lparr>owes = False, bal_amount = 50, bal_user = user1\<rparr>]
   \<and> list_all (\<lambda>x. uid (bal_user x) \<noteq> ''U2'')
         [\<lparr>owes = True, bal_amount = 50, bal_user = user1\<rparr>,
          \<lparr>owes = False, bal_amount = 50, bal_user = user1\<rparr>]"
proof -
  have h1: "ledger_get (accumulate [scenario1]) ''U2'' ''U1'' = Some 50"
    by code_simp
  have h2: "uid user1 = ''U1''"
    by (simp add: user1_def)
  have h3: "paidBy scenario1 \<in> set (participants scenario1)
      \<and> distinct (map uid (participants scenario1))
      \<and> user2 \<in> set (participants scenario1) \<and> uid user2 \<noteq> uid (paidBy scenario1)"
    by (simp add: scenario1_def mk_expense_def user1_def user2_def)
  have h4: "computeBalances ''U2'' [scenario1] =
       Inr [\<lparr>owes = True, bal_amount = 50, bal_user = user1\<rparr>,
            \<lparr>owes = False, bal_amount = 50, bal_user = user1\<rparr>]"
    by code_simp
  note t = ledger_antisymmetric_without_self_edges
    [where es = "[scenario1]" and a = "''U2''" and c = "''U1''" and v = 50 and p = user1
       and payer = "''U1''" and s = 50 and b = "[]" and e = scenario1 and q = user2
       and u = "''U2''"
       and out = "[\<lparr>owes = True, bal_amount = 50, bal_user = user1\<rparr>,
            \<lparr>owes = False, bal_amount = 50, bal_user = user1\<rparr>]"]
  from t h1 h2 h3 h4 show ?thesis by simp
qed

section \<open>Scenario 1\<close>

text \<open>
  C2. On the single expense of amount 100 paid by U1 for U1 and U2, the handler
  answers U2 with two entries, "U2 owes U1 50" and "U2 is owed 50 by U1", and
  answers U1 with no entry: the second loop negates \<^verbatim>\<open>balances[other][user]\<close>,
  which is positive exactly when the other user owes the requesting user.
\<close>

theorem scenario1_evaluated:
  "computeBalances ''U2'' [scenario1] =
     Inr [\<lparr>owes = True, bal_amount = 50, bal_user = user1\<rparr>,
          \<lparr>owes = False, bal_amount = 50, bal_user = user1\<rparr>]
   \<and> computeBalances ''U1'' [scenario1] = Inr []"
  by code_simp

section \<open>What the formatting loops emit\<close>

text \<open>
  The condition under which the second loop pushes an entry for \<open>k\<close> is the
  condition under which the first loop does: the requesting user owes \<open>k\<close>.
\<close>

lemma second_loop_repeats_first:
  "(k \<noteq> u \<and> or_zero (ledger_get (accumulate es) k u) < 0)
     \<longleftrightarrow> 0 < or_zero (ledger_get (accumulate es) u k)"
proof -
  have "ledger_get (accumulate es) k u = map_option uminus (ledger_get (accumulate es) u k)"
    using antisym_accumulate [of es] unfolding antisym_ledger_def by blast
  then have neg: "or_zero (ledger_get (accumulate es) k u) = - or_zero (ledger_get (accumulate es) u k)"
    by (simp only: or_zero_uminus)
  have "k = u \<Longrightarrow> or_zero (ledger_get (accumulate es) u k) = 0"
    by (simp add: ledger_no_self)
  with neg show ?thesis by auto
qed

text \<open>
  C1. On scenario 3 the ledger holds 30 for (U2, U1) and -30 for (U1, U2) and
  (U1, U3). The handler answers U2 with two entries for the one counterparty U1,
  one in each direction, and answers U1 with no entry although both net amounts
  against U1 are nonzero.
\<close>

theorem scenario3_evaluated:
  "ledger_get (accumulate [scenario3]) ''U2'' ''U1'' = Some 30
   \<and> computeBalances ''U2'' [scenario3] =
       Inr [\<lparr>owes = True, bal_amount = 30, bal_user = user1\<rparr>,
            \<lparr>owes = False, bal_amount = 30, bal_user = user1\<rparr>]
   \<and> ledger_get (accumulate [scenario3]) ''U1'' ''U2'' = Some (- 30)
   \<and> ledger_get (accumulate [scenario3]) ''U1'' ''U3'' = Some (- 30)
   \<and> computeBalances ''U1'' [scenario3] = Inr []"
  by code_simp

text \<open>
  C3. On scenario 2 the output for U2 holds "U2 owes U1 20", and the output for U1
  over the same expenses is empty: it has no entry "U1 is owed 20 by U2".
\<close>

theorem scenario2_evaluated:
  "computeBalances ''U2'' scenario2 =
     Inr [\<lparr>owes = True, bal_amount = 20, bal_user = user1\<rparr>,
          \<lparr>owes = False, bal_amount = 20, bal_user = user1\<rparr>]
   \<and> computeBalances ''U1'' scenario2 = Inr []"
  by code_simp

section \<open>When the handler throws\<close>

lemma computeBalances_total: "\<exists>out. computeBalances u es = Inr out"
  by (simp add: computeBalances_char)

lemma expense_step_no_participants: "participants e = [] \<Longrightarrow> expense_step b e = b"
  by (simp add: expense_step_def)

lemma expense_step_populated_resolved:
  "expense_step_populated b d =
     (case resolved d of None \<Rightarrow> Inl TypeError | Some e \<Rightarrow> Inr (expense_step b e))"
  by (simp add: expense_step_populated_def paidBy_id_def resolved_def expense_step_def Let_def
      split: option.splits)

lemma accumulate_populated_resolved:
  "accumulate_populated b docs =
     (case those (map resolved docs) of
        None \<Rightarrow> Inl TypeError
      | Some es \<Rightarrow> Inr (foldl expense_step b es))"
proof (induction docs arbitrary: b)
  case Nil
  then show ?case by simp
next
  case (Cons d docs)
  show ?case
  proof (cases "resolved d")
    case None
    then show ?thesis by (simp add: expense_step_populated_resolved)
  next
    case (Some e)
    then show ?thesis
      by (simp add: expense_step_populated_resolved Cons.IH split: option.splits)
  qed
qed

lemma computeBalances_format: "computeBalances u es = format_balances u es (accumulate es)"
  by (simp add: computeBalances_def format_balances_def Let_def)

lemma computeBalances_populated_resolved:
  "computeBalances_populated u docs =
     (case those (map resolved docs) of
        None \<Rightarrow> Inl TypeError
      | Some es \<Rightarrow> computeBalances u es)"
  by (simp add: computeBalances_populated_def accumulate_populated_resolved
      computeBalances_format accumulate_def split: option.splits)

lemma those_map_resolved_None:
  "those (map resolved docs) = None \<longleftrightarrow> (\<exists>d\<in>set docs. p_paidBy d = None)"
proof (induction docs)
  case Nil
  then show ?case by simp
next
  case (Cons d docs)
  then show ?case
    by (cases "p_paidBy d") (auto simp: resolved_def split: option.splits)
qed

lemma resolved_as_populated: "resolved (as_populated e) = Some e"
  by (simp add: resolved_def as_populated_def)

lemma computeBalances_populated_total:
  assumes "list_all (\<lambda>d. p_paidBy d \<noteq> None) docs"
  shows "\<exists>out. computeBalances_populated u docs = Inr out"
proof -
  from assms have "those (map resolved docs) \<noteq> None"
    unfolding those_map_resolved_None by (simp add: list_all_iff)
  then obtain es where "those (map resolved docs) = Some es" by blast
  then show ?thesis
    using computeBalances_total [of u es] by (simp add: computeBalances_populated_resolved)
qed

lemma computeBalances_populated_null_payer:
  assumes "list_ex (\<lambda>d. p_paidBy d = None) docs"
  shows "computeBalances_populated u docs = Inl TypeError"
proof -
  from assms have "those (map resolved docs) = None"
    unfolding those_map_resolved_None by (simp add: list_ex_iff)
  then show ?thesis by (simp add: computeBalances_populated_resolved)
qed

lemma expense_step_populated_no_participants:
  "p_paidBy d \<noteq> None \<Longrightarrow> p_participants d = [] \<Longrightarrow> expense_step_populated b d = Inr b"
  by (auto simp: expense_step_populated_def paidBy_id_def)

text \<open>
  C7, as stated, fails: with an expense without participants in the list, and with
  an expense of negative amount, the handler returns a balance list, not an error.
\<close>

theorem malformed_expense_counterexample:
  "computeBalances ''U2'' [scenario1, no_participants] =
     Inr [\<lparr>owes = True, bal_amount = 50, bal_user = user1\<rparr>,
          \<lparr>owes = False, bal_amount = 50, bal_user = user1\<rparr>]
   \<and> computeBalances ''U1'' [negative_amount] =
     Inr [\<lparr>owes = True, bal_amount = 50, bal_user = user2\<rparr>,
          \<lparr>owes = False, bal_amount = 50, bal_user = user2\<rparr>]"
  by code_simp

text \<open>
  C7, amended. A malformed expense (no participants, or a non-positive amount)
  does not make the balance computation fail: when the payer of every populated
  document resolves, the computation returns a balance list, the one of the
  documents read as expenses. A document without participants leaves the ledger
  unchanged, and an expense with a non-positive amount is accumulated like any
  other: each participant other than the payer is recorded with the amount divided
  by the number of participants. The computation is rejected as a whole, with a
  \<^verbatim>\<open>TypeError\<close>, when the payer of some document is \<^verbatim>\<open>null\<close>.
\<close>

theorem malformed_expense_accepted:
  "(list_all (\<lambda>d. p_paidBy d \<noteq> None) docs \<longrightarrow>
      (\<exists>out. computeBalances_populated u docs = Inr out))
   \<and> (those (map resolved docs) = Some es \<longrightarrow>
        computeBalances_populated u docs = computeBalances u es)
   \<and> (list_ex (\<lambda>d. p_paidBy d = None) docs' \<longrightarrow>
        computeBalances_populated u docs' = Inl TypeError)
   \<and> (p_paidBy d \<noteq> None \<and> p_participants d = [] \<longrightarrow> expense_step_populated b d = Inr b)
   \<and> (participants e = [] \<longrightarrow> expense_step b e = b)
   \<and> (amount e' \<le> 0 \<and> distinct (map uid (participants e'))
        \<and> q \<in> set (participants e') \<and> uid q \<noteq> uid (paidBy e')
      \<longrightarrow> ledger_get (accumulate [e']) (uid q) (uid (paidBy e'))
            = Some (amount e' / of_nat (length (participants e'))))"
proof (intro conjI impI)
  assume "list_all (\<lambda>d. p_paidBy d \<noteq> None) docs"
  then show "\<exists>out. computeBalances_populated u docs = Inr out"
    by (rule computeBalances_populated_total)
next
  assume "those (map resolved docs) = Some es"
  then show "computeBalances_populated u docs = computeBalances u es"
    by (simp add: computeBalances_populated_resolved)
next
  assume "list_ex (\<lambda>d. p_paidBy d = None) docs'"
  then show "computeBalances_populated u docs' = Inl TypeError"
    by (rule computeBalances_populated_null_payer)
next
  assume "p_paidBy d \<noteq> None \<and> p_participants d = []"
  then show "expense_step_populated b d = Inr b"
    by (simp add: expense_step_populated_no_participants)
next
  assume "participants e = []"
  then show "expense_step b e = b"
    by (rule expense_step_no_participants)
next
  assume "amount e' \<le> 0 \<and> distinct (map uid (participants e'))
        \<and> q \<in> set (participants e') \<and> uid q \<noteq> uid (paidBy e')"
  then show "ledger_get (accumulate [e']) (uid q) (uid (paidBy e'))
            = Some (amount e' / of_nat (length (participants e')))"
    by (simp add: share_of_single_expense)
qed

theorem malformed_expense_accepted_witness:
  "list_all (\<lambda>d. p_paidBy d \<noteq> None)
     [as_populated scenario1, as_populated no_participants]
   \<and> those (map resolved
        [as_populated scenario1, as_populated no_participants])
       = Some [scenario1, no_participants]
   \<and> computeBalances_populated ''U2''
        [as_populated scenario1, as_populated no_participants]
       = Inr [\<lparr>owes = True, bal_amount = 50, bal_user = user1\<rparr>,
            \<lparr>owes = False, bal_amount = 50, bal_user = user1\<rparr>]
   \<and> computeBalances ''U2'' [scenario1, no_participants] =
       Inr [\<lparr>owes = True, bal_amount = 50, bal_user = user1\<rparr>,
            \<lparr>owes = False, bal_amount = 50, bal_user = user1\<rparr>]
   \<and> list_ex (\<lambda>d. p_paidBy d = None) [as_populated scenario1, dangling_payer]
   \<and> computeBalances_populated ''U2'' [as_populated scenario1, dangling_payer] = Inl TypeError
   \<and> p_paidBy (as_populated no_participants) \<noteq> None
   \<and> p_participants (as_populated no_participants) = []
   \<and> expense_step_populated (accumulate [scenario1]) (as_populated no_participants)
       = Inr (accumulate [scenario1])
   \<and> participants no_participants = []
   \<and> expense_step (accumulate [scenario1]) no_participants = accumulate [scenario1]
   \<and> amount negative_amount \<le> 0 \<and> distinct (map uid (participants negative_amount))
   \<and> user2 \<in> set (participants negative_amount) \<and> uid user2 \<noteq> uid (paidBy negative_amount)
   \<and> ledger_get (accumulate [negative_amount]) (uid user2) (uid (paidBy negative_amount))
       = Some (amount negative_amount / of_nat (length (participants negative_amount)))"
proof -
  have h1: "list_all (\<lambda>d. p_paidBy d \<noteq> None)
     [as_populated scenario1, as_populated no_participants]"
    by (simp add: as_populated_def)
  have h2: "those (map resolved
        [as_populated scenario1, as_populated no_participants])
       = Some [scenario1, no_participants]"
    by (simp add: resolved_as_populated)
  have h3: "list_ex (\<lambda>d. p_paidBy d = None) [as_populated scenario1, dangling_payer]"
    by (simp add: dangling_payer_def)
  have h4: "p_paidBy (as_populated no_participants) \<noteq> None
      \<and> p_participants (as_populated no_participants) = []"
    by (simp add: as_populated_def no_participants_def mk_expense_def)
  have h5: "participants no_participants = []"
    by (simp add: no_participants_def mk_expense_def)
  have h6: "amount negative_amount \<le> 0 \<and> distinct (map uid (participants negative_amount))
      \<and> user2 \<in> set (participants negative_amount)
      \<and> uid user2 \<noteq> uid (paidBy negative_amount)"
    by (simp add: negative_amount_def mk_expense_def user1_def user2_def)
  have v: "computeBalances ''U2'' [scenario1, no_participants] =
       Inr [\<lparr>owes = True, bal_amount = 50, bal_user = user1\<rparr>,
            \<lparr>owes = False, bal_amount = 50, bal_user = user1\<rparr>]"
    by code_simp
  note t = malformed_expense_accepted
    [where u = "''U2''"
       and docs = "[as_populated scenario1, as_populated no_participants]"
       and es = "[scenario1, no_participants]"
       and docs' = "[as_populated scenario1, dangling_payer]"
       and d = "as_populated no_participants" and e = no_participants
       and b = "accumulate [scenario1]" and e' = negative_amount and q = user2]
  from t h2 have c2: "computeBalances_populated ''U2''
        [as_populated scenario1, as_populated no_participants]
       = computeBalances ''U2'' [scenario1, no_participants]"
    by blast
  from t h3 have c3:
    "computeBalances_populated ''U2'' [as_populated scenario1, dangling_payer] = Inl TypeError"
    by blast
  from t h4 have c4:
    "expense_step_populated (accumulate [scenario1]) (as_populated no_participants)
       = Inr (accumulate [scenario1])"
    by blast
  from t h5 have c5: "expense_step (accumulate [scenario1]) no_participants = accumulate [scenario1]"
    by blast
  from t h6 have c6:
    "ledger_get (accumulate [negative_amount]) (uid user2) (uid (paidBy negative_amount))
       = Some (amount negative_amount / of_nat (length (participants negative_amount)))"
    by blast
  from c2 v have c2': "computeBalances_populated ''U2''
        [as_populated scenario1, as_populated no_participants]
       = Inr [\<lparr>owes = True, bal_amount = 50, bal_user = user1\<rparr>,
            \<lparr>owes = False, bal_amount = 50, bal_user = user1\<rparr>]"
    by (simp only:)
  from h1 h2 c2' v h3 c3 h4 c4 h5 c5 h6 c6 show ?thesis
    by blast
qed




section \<open>Appending an expense\<close>

lemma find_append_Some: "find P xs = Some x \<Longrightarrow> find P (xs @ ys) = Some x"
  by (induction xs) (auto split: if_splits)

lemma find_user_append:
  assumes "\<exists>e\<in>set xs. involves k e"
  shows "find_user (xs @ ys) k = find_user xs k"
proof -
  from assms obtain e where e: "find (involves k) xs = Some e" "involves k e" "e \<in> set xs"
    using find_Some_ex [of xs "involves k"] by blast
  then have e': "find (involves k) (xs @ ys) = Some e"
    by (simp add: find_append_Some)
  show ?thesis
  proof (cases "find (is_user k) (participants e)")
    case (Some p)
    with e e' show ?thesis by (simp add: find_user_def)
  next
    case None
    then have "\<not> has_participant k e"
      by (auto simp: find_None_iff has_participant_iff is_user_def)
    with e have "paid_by k e" by (simp add: involves_def)
    with e obtain e2 where e2: "find (paid_by k) xs = Some e2"
      using find_Some_ex [of xs "paid_by k"] by blast
    then have "find (paid_by k) (xs @ ys) = Some e2"
      by (simp add: find_append_Some)
    with None e e' e2 show ?thesis by (simp add: find_user_def)
  qed
qed

lemma looked_up_append:
  "\<exists>e\<in>set xs. involves k e \<Longrightarrow> looked_up (xs @ ys) k = looked_up xs k"
  by (simp add: looked_up_def find_user_append)

lemma looked_up_append_ledger:
  assumes "ledger_get (accumulate es) a c \<noteq> None"
  shows "looked_up (es @ ys) a = looked_up es a" and "looked_up (es @ ys) c = looked_up es c"
  using linked_involves [OF linked_accumulate [OF assms]] looked_up_append by blast+

lemma or_zero_pos_present: "0 < or_zero v \<Longrightarrow> v \<noteq> None"
  by (cases v) simp_all

lemma or_zero_neg_present: "or_zero v < 0 \<Longrightarrow> v \<noteq> None"
  by (cases v) simp_all

lemma ledger_get_absent_key: "k \<notin> set (obj_keys b) \<Longrightarrow> ledger_get b k c = None"
  by (simp add: ledger_get_def row_def obj_get_None_iff [symmetric])

lemma computeBalances_snoc_cong:
  assumes row: "row (expense_step (accumulate es) e) u = row (accumulate es) u"
    and col: "\<And>k. ledger_get (expense_step (accumulate es) e) k u = ledger_get (accumulate es) k u"
    and keys: "obj_keys (expense_step (accumulate es) e) = obj_keys (accumulate es) @ ext"
    and ext: "\<And>k. k \<in> set ext \<Longrightarrow> k \<notin> set (obj_keys (accumulate es))"
  shows "computeBalances u (es @ [e]) = computeBalances u es"
proof -
  let ?b = "accumulate es" and ?b' = "expense_step (accumulate es) e"
  have rowget: "ledger_get ?b' u k = ledger_get ?b u k" for k
    by (simp add: ledger_get_def row)
  have first:
    "map (owes_entry (es @ [e]) ?b' u) (filter (\<lambda>k. 0 < or_zero (ledger_get ?b' u k)) (obj_keys (row ?b' u)))
     = map (owes_entry es ?b u) (filter (\<lambda>k. 0 < or_zero (ledger_get ?b u k)) (obj_keys (row ?b u)))"
    unfolding rowget row
    by (rule map_cong [OF refl])
       (auto simp: owes_entry_def rowget dest!: or_zero_pos_present looked_up_append_ledger(2))
  have "filter (\<lambda>k. k \<noteq> u \<and> or_zero (ledger_get ?b k u) < 0) ext = []"
    using ext by (auto simp: filter_empty_conv ledger_get_absent_key)
  then have filt:
    "filter (\<lambda>k. k \<noteq> u \<and> or_zero (ledger_get ?b' k u) < 0) (obj_keys ?b')
     = filter (\<lambda>k. k \<noteq> u \<and> or_zero (ledger_get ?b k u) < 0) (obj_keys ?b)"
    by (simp add: col keys)
  have second:
    "map (owed_entry (es @ [e]) ?b' u) (filter (\<lambda>k. k \<noteq> u \<and> or_zero (ledger_get ?b' k u) < 0) (obj_keys ?b'))
     = map (owed_entry es ?b u) (filter (\<lambda>k. k \<noteq> u \<and> or_zero (ledger_get ?b k u) < 0) (obj_keys ?b))"
    unfolding filt
    by (rule map_cong [OF refl])
       (auto simp: owed_entry_def col dest!: or_zero_neg_present looked_up_append_ledger(1))
  show ?thesis
    unfolding computeBalances_char [of u "es @ [e]"] computeBalances_char [of u es] accumulate_snoc
    using first second by simp
qed

section \<open>Expenses that do not involve the requesting user\<close>

lemma not_involves_iff:
  "\<not> involves u e \<longleftrightarrow> uid (paidBy e) \<noteq> u \<and> (\<forall>p\<in>set (participants e). uid p \<noteq> u)"
  by (auto simp: involves_def paid_by_def has_participant_iff)

lemma row_participant_step_other:
  "payer \<noteq> u \<Longrightarrow> uid p \<noteq> u \<Longrightarrow> row (participant_step payer s b p) u = row b u"
  by (simp add: participant_step_def Let_def row_add_debt)

lemma col_participant_step_other:
  "payer \<noteq> u \<Longrightarrow> uid p \<noteq> u \<Longrightarrow>
     ledger_get (participant_step payer s b p) k u = ledger_get b k u"
  by (simp add: ledger_get_participant_step)

lemma row_expense_step_other:
  assumes "\<not> involves u e"
  shows "row (expense_step b e) u = row b u"
  unfolding expense_step_def Let_def
  by (rule foldl_invariant [where P = "\<lambda>b'. row b' u = row b u"])
     (use assms in \<open>auto simp: not_involves_iff row_participant_step_other\<close>)

lemma col_expense_step_other:
  assumes "\<not> involves u e"
  shows "ledger_get (expense_step b e) k u = ledger_get b k u"
  unfolding expense_step_def Let_def
  by (rule foldl_invariant [where P = "\<lambda>b'. ledger_get b' k u = ledger_get b k u"])
     (use assms in \<open>auto simp: not_involves_iff col_participant_step_other\<close>)

lemma extends_keys_refl: "extends_keys b b"
  by (simp add: extends_keys_def)

lemma extends_keys_add_debt:
  assumes "extends_keys b b'"
  shows "extends_keys b (add_debt b' a c x)"
proof (cases "a \<in> set (obj_keys b')")
  case True
  with assms show ?thesis by (simp add: extends_keys_def obj_keys_add_debt)
next
  case False
  from assms obtain ext where ext: "obj_keys b' = obj_keys b @ ext"
    "\<forall>k\<in>set ext. k \<notin> set (obj_keys b)"
    unfolding extends_keys_def by blast
  from False ext(1) have "a \<notin> set (obj_keys b)" by simp
  with ext have "obj_keys (add_debt b' a c x) = obj_keys b @ (ext @ [a])
      \<and> (\<forall>k\<in>set (ext @ [a]). k \<notin> set (obj_keys b))"
    using False by (simp add: obj_keys_add_debt)
  then show ?thesis unfolding extends_keys_def by blast
qed

lemma extends_keys_participant_step:
  "extends_keys b b' \<Longrightarrow> extends_keys b (participant_step payer s b' p)"
  by (simp add: participant_step_def Let_def extends_keys_add_debt)

lemma extends_keys_expense_step: "extends_keys b (expense_step b e)"
  unfolding expense_step_def Let_def
  by (rule foldl_invariant [where P = "extends_keys b"])
     (simp_all add: extends_keys_refl extends_keys_participant_step)

lemma computeBalances_snoc_other:
  assumes "\<not> involves u e"
  shows "computeBalances u (es @ [e]) = computeBalances u es"
proof -
  from extends_keys_expense_step [of "accumulate es" e] obtain ext
    where "obj_keys (expense_step (accumulate es) e) = obj_keys (accumulate es) @ ext"
      and "\<forall>k\<in>set ext. k \<notin> set (obj_keys (accumulate es))"
    unfolding extends_keys_def by blast
  then show ?thesis
    using row_expense_step_other [OF assms] col_expense_step_other [OF assms]
    by (intro computeBalances_snoc_cong [where ext = ext]) auto
qed

lemma findVisible_other:
  "\<not> involves u e \<Longrightarrow> findVisible u (xs @ e # ys) = findVisible u (xs @ ys)"
  by (simp add: findVisible_def)

text \<open>
  C8. An expense that the requesting user neither paid nor takes part in does not
  affect the user's balance output: the computation over a list with the expense
  appended equals the computation over the list alone. The handler moreover never
  passes such an expense to the computation, wherever it is stored.
\<close>

theorem unrelated_expense_has_no_effect:
  "\<not> involves u e \<longrightarrow>
     computeBalances u (es @ [e]) = computeBalances u es
     \<and> balance_handler u (xs @ e # ys) = balance_handler u (xs @ ys)"
  using computeBalances_snoc_other findVisible_other
  by (simp add: balance_handler_def)

theorem unrelated_expense_has_no_effect_witness:
  "\<not> involves ''U2'' unrelated
   \<and> computeBalances ''U2'' ([scenario1] @ [unrelated]) = computeBalances ''U2'' [scenario1]
   \<and> computeBalances ''U2'' [scenario1] =
       Inr [\<lparr>owes = True, bal_amount = 50, bal_user = user1\<rparr>,
            \<lparr>owes = False, bal_amount = 50, bal_user = user1\<rparr>]
   \<and> balance_handler ''U2'' ([scenario1] @ unrelated # [negative_amount])
       = balance_handler ''U2'' ([scenario1] @ [negative_amount])"
proof -
  have h: "\<not> involves ''U2'' unrelated"
    by code_simp
  have v: "computeBalances ''U2'' [scenario1] =
       Inr [\<lparr>owes = True, bal_amount = 50, bal_user = user1\<rparr>,
            \<lparr>owes = False, bal_amount = 50, bal_user = user1\<rparr>]"
    by code_simp
  note t = unrelated_expense_has_no_effect
    [where u = "''U2''" and e = unrelated and es = "[scenario1]" and xs = "[scenario1]"
       and ys = "[negative_amount]"]
  from t h v show ?thesis by simp
qed

section \<open>Expenses whose payer is the only participant\<close>

lemma expense_step_sole_participant:
  assumes "sole_participant e"
  shows "expense_step b e = b"
proof -
  from assms obtain p where p: "participants e = [p]" "uid p = uid (paidBy e)"
    unfolding sole_participant_def by (cases "participants e") auto
  then show ?thesis
    by (simp add: expense_step_def Let_def self_participant_skipped)
qed

lemma accumulate_insert_sole_participant:
  "sole_participant e \<Longrightarrow> accumulate (xs @ e # ys) = accumulate (xs @ ys)"
  by (simp add: accumulate_def expense_step_sole_participant)

lemma computeBalances_sole_participant:
  assumes "sole_participant e"
  shows "computeBalances u [e] = Inr []"
proof -
  have "accumulate [e] = []"
    using accumulate_insert_sole_participant [OF assms, of "[]" "[]"]
    by (simp add: accumulate_def)
  then show ?thesis
    by (simp add: computeBalances_char row_def obj_keys_def)
qed

lemma computeBalances_snoc_sole_participant:
  assumes "sole_participant e"
  shows "computeBalances u (es @ [e]) = computeBalances u es"
  by (rule computeBalances_snoc_cong [where ext = "[]"])
     (simp_all add: expense_step_sole_participant [OF assms])

lemma balance_handler_snoc_sole_participant:
  assumes "sole_participant e"
  shows "balance_handler u (es @ [e]) = balance_handler u es"
  by (cases "involves u e")
     (simp_all add: balance_handler_def findVisible_def
        computeBalances_snoc_sole_participant [OF assms])

lemma find_mem: "find P xs = Some x \<Longrightarrow> x \<in> set xs"
  by (induction xs) (auto split: if_splits)

lemma find_user_mem: "find_user es k = Inr usr \<Longrightarrow> usr \<in> set (users_of es)"
  by (fastforce simp: find_user_def users_of_def split: option.splits dest: find_mem)

lemma consistent_usersD:
  "consistent_users es \<Longrightarrow> p \<in> set (users_of es) \<Longrightarrow> q \<in> set (users_of es) \<Longrightarrow>
     uid p = uid q \<Longrightarrow> p = q"
  by (auto simp: consistent_users_def list_all_iff)

lemma users_of_insert: "set (users_of (xs @ ys)) \<subseteq> set (users_of (xs @ e # ys))"
  by (auto simp: users_of_def)

lemma involves_insert: "\<exists>x\<in>set (xs @ ys). involves k x \<Longrightarrow> \<exists>x\<in>set (xs @ e # ys). involves k x"
  by auto

lemma looked_up_insert:
  assumes "consistent_users (xs @ e # ys)" and "\<exists>x\<in>set (xs @ ys). involves k x"
  shows "looked_up (xs @ e # ys) k = looked_up (xs @ ys) k"
proof -
  from assms(2) have 1: "find_user (xs @ ys) k = Inr (looked_up (xs @ ys) k)"
    by (rule find_user_looked_up)
  from involves_insert [OF assms(2)]
  have 2: "find_user (xs @ e # ys) k = Inr (looked_up (xs @ e # ys) k)"
    by (rule find_user_looked_up)
  from 1 have "looked_up (xs @ ys) k \<in> set (users_of (xs @ e # ys))"
    using find_user_mem users_of_insert by blast
  moreover from 2 have "looked_up (xs @ e # ys) k \<in> set (users_of (xs @ e # ys))"
    by (rule find_user_mem)
  ultimately show ?thesis
    using consistent_usersD [OF assms(1)] by (simp add: uid_looked_up)
qed

lemma looked_up_insert_ledger:
  assumes "consistent_users (xs @ e # ys)" and "ledger_get (accumulate (xs @ ys)) a c \<noteq> None"
  shows "looked_up (xs @ e # ys) a = looked_up (xs @ ys) a"
    and "looked_up (xs @ e # ys) c = looked_up (xs @ ys) c"
  using linked_involves [OF linked_accumulate [OF assms(2)]] looked_up_insert [OF assms(1)]
  by blast+

lemma computeBalances_insert_sole_participant:
  assumes sole: "sole_participant e" and cons: "consistent_users (xs @ e # ys)"
  shows "computeBalances u (xs @ e # ys) = computeBalances u (xs @ ys)"
proof -
  let ?b = "accumulate (xs @ ys)"
  have acc: "accumulate (xs @ e # ys) = ?b"
    by (rule accumulate_insert_sole_participant [OF sole])
  have first:
    "map (owes_entry (xs @ e # ys) ?b u) (filter (\<lambda>k. 0 < or_zero (ledger_get ?b u k)) ks)
     = map (owes_entry (xs @ ys) ?b u) (filter (\<lambda>k. 0 < or_zero (ledger_get ?b u k)) ks)" for ks
    by (rule map_cong [OF refl])
       (auto simp: owes_entry_def dest!: or_zero_pos_present looked_up_insert_ledger(2) [OF cons])
  have second:
    "map (owed_entry (xs @ e # ys) ?b u) (filter (\<lambda>k. k \<noteq> u \<and> or_zero (ledger_get ?b k u) < 0) ks)
     = map (owed_entry (xs @ ys) ?b u) (filter (\<lambda>k. k \<noteq> u \<and> or_zero (ledger_get ?b k u) < 0) ks)" for ks
    by (rule map_cong [OF refl])
       (auto simp: owed_entry_def dest!: or_zero_neg_present looked_up_insert_ledger(1) [OF cons])
  show ?thesis
    unfolding computeBalances_char [of u "xs @ e # ys"] computeBalances_char [of u "xs @ ys"] acc
    by (simp only: first second)
qed

text \<open>
  C6. An expense whose payer is its only participant leaves the ledger unchanged,
  so the ledger of a list does not depend on such an expense at any position, and
  the expense alone gives no entry in the balance output of any requesting user.
  Appending such an expense to any list leaves every user's output unchanged, for
  the computation and for the handler; inserted at any position it leaves the
  output unchanged when user objects with one identifier are equal.
\<close>

theorem sole_participant_expense_has_no_effect:
  "sole_participant e \<longrightarrow>
     expense_step b e = b
     \<and> accumulate (xs @ e # ys) = accumulate (xs @ ys)
     \<and> computeBalances u [e] = Inr []
     \<and> computeBalances u (es @ [e]) = computeBalances u es
     \<and> balance_handler u (es @ [e]) = balance_handler u es
     \<and> (consistent_users (xs @ e # ys) \<longrightarrow>
          computeBalances u (xs @ e # ys) = computeBalances u (xs @ ys))"
  using expense_step_sole_participant accumulate_insert_sole_participant
    computeBalances_sole_participant computeBalances_snoc_sole_participant
    balance_handler_snoc_sole_participant computeBalances_insert_sole_participant
  by blast

theorem sole_participant_expense_has_no_effect_witness:
  "sole_participant alone
   \<and> consistent_users ([scenario3] @ alone # scenario2)
   \<and> expense_step (accumulate [scenario3]) alone = accumulate [scenario3]
   \<and> accumulate ([scenario3] @ alone # scenario2) = accumulate ([scenario3] @ scenario2)
   \<and> computeBalances ''U3'' [alone] = Inr []
   \<and> computeBalances ''U3'' ([scenario3] @ [alone]) = computeBalances ''U3'' [scenario3]
   \<and> computeBalances ''U3'' [scenario3] =
       Inr [\<lparr>owes = True, bal_amount = 30, bal_user = user1\<rparr>,
            \<lparr>owes = False, bal_amount = 30, bal_user = user1\<rparr>]
   \<and> balance_handler ''U3'' ([scenario3] @ [alone]) = balance_handler ''U3'' [scenario3]
   \<and> computeBalances ''U3'' ([scenario3] @ alone # scenario2)
       = computeBalances ''U3'' ([scenario3] @ scenario2)"
proof -
  have h1: "sole_participant alone"
    by code_simp
  have h2: "consistent_users ([scenario3] @ alone # scenario2)"
    by code_simp
  have v: "computeBalances ''U3'' [scenario3] =
       Inr [\<lparr>owes = True, bal_amount = 30, bal_user = user1\<rparr>,
            \<lparr>owes = False, bal_amount = 30, bal_user = user1\<rparr>]"
    by code_simp
  note t = sole_participant_expense_has_no_effect
    [where e = alone and b = "accumulate [scenario3]" and xs = "[scenario3]" and ys = scenario2
       and u = "''U3''" and es = "[scenario3]"]
  from t h1 h2 v show ?thesis by simp
qed

section \<open>Conservation\<close>

lemma net_position_row_sum: "net_position b u = - row_sum (row b u)"
proof -
  have "sum_list (map (\<lambda>kv. if snd kv < 0 then - snd kv else 0) r)
        - sum_list (map (\<lambda>kv. if 0 < snd kv then snd kv else 0) r)
        = - sum_list (map snd r)" for r :: "rat obj"
    by (induction r) auto
  then show ?thesis
    by (simp add: net_position_def owed_to_def owed_by_def row_sum_def)
qed

lemma row_sum_obj_set: "row_sum (obj_set c v r) = row_sum r - or_zero (obj_get r c) + v"
  by (induction c v r rule: obj_set.induct) (auto simp: row_sum_def)

lemma ledger_sum_obj_set:
  "ledger_sum (obj_set a r' b) = ledger_sum b - row_sum (row b a) + row_sum r'"
proof (induction a r' b rule: obj_set.induct)
  case (1 k v)
  then show ?case by (simp add: ledger_sum_def row_def row_sum_def)
next
  case (2 k v k' v' kvs)
  have r: "row ((k', v') # kvs) k = (if k' = k then v' else row kvs k)"
    by (simp add: row_def)
  from 2 show ?case
    by (auto simp: ledger_sum_def r)
qed

lemma ledger_sum_add_debt: "ledger_sum (add_debt b a c x) = ledger_sum b + x"
  by (simp add: add_debt_def Let_def ledger_sum_obj_set row_sum_obj_set)

lemma ledger_sum_participant_step: "ledger_sum (participant_step payer s b p) = ledger_sum b"
  by (simp add: participant_step_def Let_def ledger_sum_add_debt)

lemma ledger_sum_expense_step: "ledger_sum (expense_step b e) = ledger_sum b"
  unfolding expense_step_def Let_def
  by (rule foldl_invariant [where P = "\<lambda>b'. ledger_sum b' = ledger_sum b"])
     (simp_all add: ledger_sum_participant_step)

lemma ledger_sum_accumulate: "ledger_sum (accumulate es) = 0"
  unfolding accumulate_def
proof (rule foldl_invariant [where P = "\<lambda>b'. ledger_sum b' = 0"])
  show "ledger_sum [] = 0" by (simp add: ledger_sum_def)
qed (simp only: ledger_sum_expense_step)

lemma distinct_obj_keys_set: "distinct (obj_keys kvs) \<Longrightarrow> distinct (obj_keys (obj_set k v kvs))"
  by (simp add: obj_keys_set)

lemma distinct_keys_add_debt: "distinct (obj_keys b) \<Longrightarrow> distinct (obj_keys (add_debt b a c x))"
  by (simp add: obj_keys_add_debt)

lemma distinct_keys_participant_step:
  "distinct (obj_keys b) \<Longrightarrow> distinct (obj_keys (participant_step payer s b p))"
  by (simp add: participant_step_def Let_def distinct_keys_add_debt)

lemma distinct_keys_expense_step:
  "distinct (obj_keys b) \<Longrightarrow> distinct (obj_keys (expense_step b e))"
  unfolding expense_step_def Let_def
  by (rule foldl_invariant [where P = "\<lambda>b'. distinct (obj_keys b')"])
     (simp_all add: distinct_keys_participant_step)

lemma distinct_keys_accumulate: "distinct (obj_keys (accumulate es))"
  unfolding accumulate_def
proof (rule foldl_invariant [where P = "\<lambda>b'. distinct (obj_keys b')"])
  show "distinct (obj_keys ([] :: ledger))" by (simp add: obj_keys_def)
qed (rule distinct_keys_expense_step)

lemma sum_rows_by_key:
  "distinct (obj_keys b) \<Longrightarrow>
     sum_list (map (\<lambda>k. row_sum (row b k)) (obj_keys b)) = ledger_sum b"
proof (induction b)
  case Nil
  then show ?case by (simp add: obj_keys_def ledger_sum_def)
next
  case (Cons kr b)
  obtain k r where kr: "kr = (k, r)" by (cases kr)
  from Cons.prems kr have k: "k \<notin> set (obj_keys b)" and d: "distinct (obj_keys b)"
    by (simp_all add: obj_keys_def)
  have "map (\<lambda>k'. row_sum (row ((k, r) # b) k')) (obj_keys b)
        = map (\<lambda>k'. row_sum (row b k')) (obj_keys b)"
    using k by (intro map_cong [OF refl]) (auto simp: row_def)
  then have "sum_list (map (\<lambda>k'. row_sum (row ((k, r) # b) k')) (obj_keys b)) = ledger_sum b"
    by (simp only: Cons.IH [OF d])
  moreover have "obj_keys ((k, r) # b) = k # obj_keys b" "row ((k, r) # b) k = r"
    "ledger_sum ((k, r) # b) = row_sum r + ledger_sum b"
    by (simp_all add: obj_keys_def row_def ledger_sum_def)
  ultimately show ?case
    by (simp only: kr list.map sum_list.Cons)
qed

lemma sum_list_map_uminus:
  "sum_list (map (\<lambda>x. - f x) xs) = - sum_list (map f xs)" for f :: "'a \<Rightarrow> rat"
  by (induction xs) simp_all

lemma net_positions_of_keys:
  "sum_list (map (net_position (accumulate es)) (obj_keys (accumulate es))) = 0"
proof -
  have "sum_list (map (net_position (accumulate es)) (obj_keys (accumulate es)))
        = - sum_list (map (\<lambda>k. row_sum (row (accumulate es) k)) (obj_keys (accumulate es)))"
  proof -
    have "net_position (accumulate es) = (\<lambda>k. - row_sum (row (accumulate es) k))"
      by (rule ext) (rule net_position_row_sum)
    then show ?thesis by (simp only: sum_list_map_uminus)
  qed
  then show ?thesis
    by (simp add: sum_rows_by_key [OF distinct_keys_accumulate] ledger_sum_accumulate)
qed

lemma keys_add_debt:
  "set (obj_keys b) \<subseteq> A \<Longrightarrow> a \<in> A \<Longrightarrow> set (obj_keys (add_debt b a c x)) \<subseteq> A"
  by (simp add: obj_keys_add_debt)

lemma keys_participant_step:
  "set (obj_keys b) \<subseteq> A \<Longrightarrow> payer \<in> A \<Longrightarrow> uid p \<in> A \<Longrightarrow>
     set (obj_keys (participant_step payer s b p)) \<subseteq> A"
  by (simp add: participant_step_def Let_def keys_add_debt)

lemma keys_expense_step:
  assumes "set (obj_keys b) \<subseteq> A" and "uid (paidBy e) \<in> A" and "uid ` set (participants e) \<subseteq> A"
  shows "set (obj_keys (expense_step b e)) \<subseteq> A"
  unfolding expense_step_def Let_def
proof (rule foldl_invariant [where P = "\<lambda>b'. set (obj_keys b') \<subseteq> A"])
  show "set (obj_keys b) \<subseteq> A" by (rule assms(1))
next
  fix b' :: ledger and p
  assume "p \<in> set (participants e)" and "set (obj_keys b') \<subseteq> A"
  moreover from this assms(3) have "uid p \<in> A" by blast
  ultimately show "set (obj_keys (participant_step (uid (paidBy e))
      (amount e / of_nat (length (participants e))) b' p)) \<subseteq> A"
    using assms(2) by (intro keys_participant_step)
qed

lemma keys_accumulate: "set (obj_keys (accumulate es)) \<subseteq> uid ` set (users_of es)"
  unfolding accumulate_def
proof (rule foldl_invariant [where P = "\<lambda>b'. set (obj_keys b') \<subseteq> uid ` set (users_of es)"])
  show "set (obj_keys ([] :: ledger)) \<subseteq> uid ` set (users_of es)"
    by (simp add: obj_keys_def)
next
  fix b :: ledger and e
  assume "e \<in> set es" and "set (obj_keys b) \<subseteq> uid ` set (users_of es)"
  moreover from this have "paidBy e \<in> set (users_of es)"
    and "set (participants e) \<subseteq> set (users_of es)"
    by (auto simp: users_of_def)
  ultimately show "set (obj_keys (expense_step b e)) \<subseteq> uid ` set (users_of es)"
    by (intro keys_expense_step) blast+
qed

lemma net_position_absent: "u \<notin> set (obj_keys b) \<Longrightarrow> net_position b u = 0"
  by (simp add: net_position_row_sum row_def row_sum_def obj_get_None_iff [symmetric])

lemma net_positions_of_users:
  assumes "finite S" and "uid ` set (users_of es) \<subseteq> S"
  shows "(\<Sum>u\<in>S. net_position (accumulate es) u) = 0"
proof -
  let ?b = "accumulate es"
  have sub: "set (obj_keys ?b) \<subseteq> S"
    using keys_accumulate assms(2) by blast
  have "(\<Sum>u\<in>S. net_position ?b u) = (\<Sum>u\<in>set (obj_keys ?b). net_position ?b u)"
    by (rule sum.mono_neutral_right [OF assms(1) sub]) (simp add: net_position_absent)
  also have "\<dots> = sum_list (map (net_position ?b) (obj_keys ?b))"
    by (simp add: sum_list_distinct_conv_sum_set [OF distinct_keys_accumulate])
  finally show ?thesis by (simp add: net_positions_of_keys)
qed

text \<open>
  C5. For every expense list, the net positions (amount owed to the user minus
  amount the user owes, read from the user's row of the ledger) of all users sum
  to zero: summed over the users that have a row, and summed over any finite set
  of users that contains every payer and participant of the list.
\<close>

theorem net_positions_sum_to_zero:
  "sum_list (map (net_position (accumulate es)) (obj_keys (accumulate es))) = 0
   \<and> (finite S \<and> uid ` set (users_of es) \<subseteq> S
        \<longrightarrow> (\<Sum>u\<in>S. net_position (accumulate es) u) = 0)"
proof (intro conjI impI)
  show "sum_list (map (net_position (accumulate es)) (obj_keys (accumulate es))) = 0"
    by (rule net_positions_of_keys)
next
  assume "finite S \<and> uid ` set (users_of es) \<subseteq> S"
  then show "(\<Sum>u\<in>S. net_position (accumulate es) u) = 0"
    using net_positions_of_users by blast
qed


theorem net_positions_sum_to_zero_witness:
  "finite {''U1'', ''U2'', ''U3'', ''U4''}
   \<and> uid ` set (users_of (scenario3 # scenario2)) \<subseteq> {''U1'', ''U2'', ''U3'', ''U4''}
   \<and> net_position (accumulate (scenario3 # scenario2)) ''U1'' = 80
   \<and> net_position (accumulate (scenario3 # scenario2)) ''U2'' = - 50
   \<and> net_position (accumulate (scenario3 # scenario2)) ''U3'' = - 30
   \<and> net_position (accumulate (scenario3 # scenario2)) ''U4'' = 0
   \<and> (\<Sum>u\<in>{''U1'', ''U2'', ''U3'', ''U4''}. net_position (accumulate (scenario3 # scenario2)) u) = 0
   \<and> sum_list (map (net_position (accumulate (scenario3 # scenario2)))
        (obj_keys (accumulate (scenario3 # scenario2)))) = 0"
proof -
  have h: "uid ` set (users_of (scenario3 # scenario2)) \<subseteq> {''U1'', ''U2'', ''U3'', ''U4''}"
    by (simp add: users_of_def scenario3_def scenario2_def mk_expense_def
        user1_def user2_def user3_def)
  have v: "net_position (accumulate (scenario3 # scenario2)) ''U1'' = 80
    \<and> net_position (accumulate (scenario3 # scenario2)) ''U2'' = - 50
    \<and> net_position (accumulate (scenario3 # scenario2)) ''U3'' = - 30
    \<and> net_position (accumulate (scenario3 # scenario2)) ''U4'' = 0"
    by code_simp
  note t = net_positions_sum_to_zero
    [where es = "scenario3 # scenario2" and S = "{''U1'', ''U2'', ''U3'', ''U4''}"]
  from t h v show ?thesis by simp
qed

section \<open>Monthly totals\<close>

lemma group_ids_add:
  "map group_id (group_add k a gs) =
     (if k \<in> set (map group_id gs) then map group_id gs else map group_id gs @ [k])"
  by (induction k a gs rule: group_add.induct) auto

lemma group_total_add:
  "group_total (group_add k a gs) k' =
     (if k' = k then group_total gs k + a else group_total gs k')"
  by (induction k a gs rule: group_add.induct) (auto simp: group_total_def)

lemma group_stage_snoc:
  "group_stage (es @ [e]) = group_add (month_id e) (amount e) (group_stage es)"
  by (simp add: group_stage_def)

lemma group_ids_stage: "set (map group_id (group_stage es)) = month_id ` set es"
proof (induction es rule: rev_induct)
  case Nil
  then show ?case by (simp add: group_stage_def)
next
  case (snoc e es)
  then show ?case
    unfolding group_stage_snoc group_ids_add by auto
qed

lemma distinct_ids_stage: "distinct (map group_id (group_stage es))"
proof (induction es rule: rev_induct)
  case Nil
  then show ?case by (simp add: group_stage_def)
next
  case (snoc e es)
  then show ?case
    unfolding group_stage_snoc group_ids_add by simp
qed

lemma group_total_stage: "group_total (group_stage es) k = month_sum es k"
proof (induction es arbitrary: k rule: rev_induct)
  case Nil
  then show ?case by (simp add: group_stage_def group_total_def month_sum_def)
next
  case (snoc e es)
  then show ?case
    unfolding group_stage_snoc group_total_add by (simp add: month_sum_def)
qed

lemma group_total_member:
  "distinct (map group_id gs) \<Longrightarrow> g \<in> set gs \<Longrightarrow> group_total gs (group_id g) = total g"
  by (induction gs) (auto simp: group_total_def)

lemma set_insert_desc: "set (insert_desc g hs) = insert g (set hs)"
  by (induction hs) auto

lemma set_sort_stage: "set (sort_stage gs) = set gs"
  by (induction gs) (simp_all add: sort_stage_def set_insert_desc)

lemma distinct_insert_desc:
  "distinct (map group_id (insert_desc g hs)) \<longleftrightarrow>
     group_id g \<notin> group_id ` set hs \<and> distinct (map group_id hs)"
  by (induction hs) (auto simp: set_insert_desc)

lemma distinct_sort_stage:
  "distinct (map group_id (sort_stage gs)) \<longleftrightarrow> distinct (map group_id gs)"
  by (induction gs) (simp_all add: sort_stage_def distinct_insert_desc set_sort_stage [unfolded sort_stage_def])

lemma ym_ge_total: "ym_ge a b \<or> ym_ge b a"
  by (auto simp: ym_ge_def)

lemma ym_ge_trans: "ym_ge a b \<Longrightarrow> ym_ge b c \<Longrightarrow> ym_ge a c"
  by (auto simp: ym_ge_def)

lemma ym_gt_iff: "ym_gt a b \<longleftrightarrow> ym_ge a b \<and> a \<noteq> b"
  by (auto simp: ym_ge_def ym_gt_def prod_eq_iff)

lemma sorted_insert_desc:
  "sorted_wrt (\<lambda>g h. ym_ge (group_id g) (group_id h)) hs \<Longrightarrow>
     sorted_wrt (\<lambda>g h. ym_ge (group_id g) (group_id h)) (insert_desc g hs)"
proof (induction hs)
  case Nil
  then show ?case by simp
next
  case (Cons h hs)
  show ?case
  proof (cases "ym_ge (group_id g) (group_id h)")
    case True
    with Cons.prems show ?thesis
      by (auto intro: ym_ge_trans)
  next
    case False
    then have "ym_ge (group_id h) (group_id g)"
      using ym_ge_total by blast
    with False Cons show ?thesis
      by (auto simp: set_insert_desc)
  qed
qed

lemma sorted_sort_stage:
  "sorted_wrt (\<lambda>g h. ym_ge (group_id g) (group_id h)) (sort_stage gs)"
  by (induction gs) (simp_all add: sort_stage_def sorted_insert_desc)

lemma strictly_sorted:
  "sorted_wrt (\<lambda>g h. ym_ge (group_id g) (group_id h)) gs \<Longrightarrow> distinct (map group_id gs) \<Longrightarrow>
     sorted_wrt (\<lambda>g h. ym_gt (group_id g) (group_id h)) gs"
  by (induction gs) (auto simp: ym_gt_iff)

lemma sorted_groups:
  "sorted_wrt (\<lambda>g h. ym_gt (group_id g) (group_id h)) (sort_stage (group_stage es))"
  by (rule strictly_sorted [OF sorted_sort_stage])
     (simp add: distinct_sort_stage distinct_ids_stage)

lemma pipeline_length: "length (monthly_pipeline es) \<le> 12"
  by (simp add: monthly_pipeline_def limit_stage_def)

lemma pipeline_sorted:
  "sorted_wrt (\<lambda>g h. ym_gt (group_id g) (group_id h)) (monthly_pipeline es)"
  unfolding monthly_pipeline_def limit_stage_def
  by (rule sorted_wrt_take [OF sorted_groups])

lemma pipeline_member:
  assumes "g \<in> set (monthly_pipeline es)"
  shows "group_id g \<in> month_id ` set es" and "total g = month_sum es (group_id g)"
proof -
  from assms have "g \<in> set (sort_stage (group_stage es))"
    unfolding monthly_pipeline_def limit_stage_def by (rule in_set_takeD)
  then have g: "g \<in> set (group_stage es)"
    by (simp only: set_sort_stage)
  then have "group_id g \<in> set (map group_id (group_stage es))"
    by simp
  then show "group_id g \<in> month_id ` set es"
    by (simp only: group_ids_stage)
  have "group_total (group_stage es) (group_id g) = total g"
    by (rule group_total_member [OF distinct_ids_stage g])
  then show "total g = month_sum es (group_id g)"
    by (simp only: group_total_stage)
qed

lemma pipeline_most_recent:
  assumes "e \<in> set es" and "month_id e \<notin> group_id ` set (monthly_pipeline es)"
  shows "length (monthly_pipeline es) = 12"
    and "\<forall>g\<in>set (monthly_pipeline es). ym_gt (group_id g) (month_id e)"
proof -
  let ?s = "sort_stage (group_stage es)"
  from assms(1) have "month_id e \<in> set (map group_id (group_stage es))"
    unfolding group_ids_stage by (rule imageI)
  then obtain h where h: "h \<in> set ?s" "group_id h = month_id e"
    unfolding set_sort_stage by auto
  from assms(2) h(2) have "h \<notin> set (take 12 ?s)"
    unfolding monthly_pipeline_def limit_stage_def by force
  with h(1) have hd: "h \<in> set (drop 12 ?s)"
    by (metis Un_iff append_take_drop_id set_append)
  then have "12 < length ?s"
    by (metis drop_all empty_iff empty_set not_le_imp_less)
  then show "length (monthly_pipeline es) = 12"
    by (simp add: monthly_pipeline_def limit_stage_def)
  have "sorted_wrt (\<lambda>g h. ym_gt (group_id g) (group_id h)) (take 12 ?s @ drop 12 ?s)"
    using sorted_groups [of es] by simp
  then have "\<forall>g\<in>set (take 12 ?s). ym_gt (group_id g) (group_id h)"
    using hd unfolding sorted_wrt_append by blast
  then show "\<forall>g\<in>set (monthly_pipeline es). ym_gt (group_id g) (month_id e)"
    by (simp add: monthly_pipeline_def limit_stage_def h(2))
qed

text \<open>
  C9. For every expense list, the monthly result has at most 12 groups and is
  strictly descending by (year, month), so no month occurs twice. Every group is
  the month of some expense and its total is the sum of the amounts of the
  expenses of that month. The groups are the most recent months of the data: a
  month of the data that has no group is older than every group, and then there
  are exactly 12 groups. The handler applies this to the expenses visible to the
  user.
\<close>

theorem monthly_totals_most_recent_twelve:
  "length (monthly_pipeline es) \<le> 12
   \<and> sorted_wrt (\<lambda>g h. ym_gt (group_id g) (group_id h)) (monthly_pipeline es)
   \<and> (\<forall>g\<in>set (monthly_pipeline es).
         group_id g \<in> month_id ` set es \<and> total g = month_sum es (group_id g))
   \<and> (\<forall>e\<in>set es. month_id e \<notin> group_id ` set (monthly_pipeline es) \<longrightarrow>
         length (monthly_pipeline es) = 12
         \<and> (\<forall>g\<in>set (monthly_pipeline es). ym_gt (group_id g) (month_id e)))
   \<and> monthlyExpenses u store = monthly_pipeline (findVisible u store)"
proof (intro conjI ballI impI)
  show "length (monthly_pipeline es) \<le> 12"
    by (rule pipeline_length)
  show "sorted_wrt (\<lambda>g h. ym_gt (group_id g) (group_id h)) (monthly_pipeline es)"
    by (rule pipeline_sorted)
  show "monthlyExpenses u store = monthly_pipeline (findVisible u store)"
    by (rule monthlyExpenses_def)
next
  fix g
  assume "g \<in> set (monthly_pipeline es)"
  then show "group_id g \<in> month_id ` set es" and "total g = month_sum es (group_id g)"
    by (rule pipeline_member)+
next
  fix e
  assume "e \<in> set es" and "month_id e \<notin> group_id ` set (monthly_pipeline es)"
  then show "length (monthly_pipeline es) = 12"
    by (rule pipeline_most_recent(1))
next
  fix e g
  assume "e \<in> set es" and "month_id e \<notin> group_id ` set (monthly_pipeline es)"
    and "g \<in> set (monthly_pipeline es)"
  then show "ym_gt (group_id g) (month_id e)"
    using pipeline_most_recent(2) by blast
qed

theorem monthly_totals_most_recent_twelve_witness:
  "mk_dated 20 2023 12 \<in> set thirteen_months
   \<and> month_id (mk_dated 20 2023 12) \<notin> group_id ` set (monthly_pipeline thirteen_months)
   \<and> length (monthly_pipeline thirteen_months) = 12
   \<and> list_all (\<lambda>g. ym_gt (group_id g) (month_id (mk_dated 20 2023 12)))
        (monthly_pipeline thirteen_months)
   \<and> list_all (\<lambda>g. group_id g \<in> month_id ` set thirteen_months
                  \<and> total g = month_sum thirteen_months (group_id g))
        (monthly_pipeline thirteen_months)
   \<and> monthly_pipeline thirteen_months =
       [\<lparr>group_id = (2024, 12), total = 10\<rparr>, \<lparr>group_id = (2024, 11), total = 10\<rparr>,
        \<lparr>group_id = (2024, 10), total = 10\<rparr>, \<lparr>group_id = (2024, 9), total = 10\<rparr>,
        \<lparr>group_id = (2024, 8), total = 10\<rparr>, \<lparr>group_id = (2024, 7), total = 10\<rparr>,
        \<lparr>group_id = (2024, 6), total = 10\<rparr>, \<lparr>group_id = (2024, 5), total = 10\<rparr>,
        \<lparr>group_id = (2024, 4), total = 10\<rparr>, \<lparr>group_id = (2024, 3), total = 15\<rparr>,
        \<lparr>group_id = (2024, 2), total = 10\<rparr>, \<lparr>group_id = (2024, 1), total = 10\<rparr>]"
proof -
  have r: "monthly_pipeline thirteen_months =
       [\<lparr>group_id = (2024, 12), total = 10\<rparr>, \<lparr>group_id = (2024, 11), total = 10\<rparr>,
        \<lparr>group_id = (2024, 10), total = 10\<rparr>, \<lparr>group_id = (2024, 9), total = 10\<rparr>,
        \<lparr>group_id = (2024, 8), total = 10\<rparr>, \<lparr>group_id = (2024, 7), total = 10\<rparr>,
        \<lparr>group_id = (2024, 6), total = 10\<rparr>, \<lparr>group_id = (2024, 5), total = 10\<rparr>,
        \<lparr>group_id = (2024, 4), total = 10\<rparr>, \<lparr>group_id = (2024, 3), total = 15\<rparr>,
        \<lparr>group_id = (2024, 2), total = 10\<rparr>, \<lparr>group_id = (2024, 1), total = 10\<rparr>]"
    by code_simp
  have h1: "mk_dated 20 2023 12 \<in> set thirteen_months"
    by (simp add: thirteen_months_def)
  have h2: "month_id (mk_dated 20 2023 12) \<notin> group_id ` set (monthly_pipeline thirteen_months)"
    unfolding r by (simp add: month_id_def mk_dated_def)
  note t = monthly_totals_most_recent_twelve
    [where es = thirteen_months and u = "''U1''" and store = thirteen_months]
  from t h1 h2 have c: "length (monthly_pipeline thirteen_months) = 12"
    and d: "\<forall>g\<in>set (monthly_pipeline thirteen_months).
              ym_gt (group_id g) (month_id (mk_dated 20 2023 12))"
    by blast+
  from t have e: "\<forall>g\<in>set (monthly_pipeline thirteen_months).
      group_id g \<in> month_id ` set thirteen_months
      \<and> total g = month_sum thirteen_months (group_id g)"
    by blast
  from d have d': "list_all (\<lambda>g. ym_gt (group_id g) (month_id (mk_dated 20 2023 12)))
        (monthly_pipeline thirteen_months)"
    by (simp only: list_all_iff)
  from e have e': "list_all (\<lambda>g. group_id g \<in> month_id ` set thirteen_months
                  \<and> total g = month_sum thirteen_months (group_id g))
        (monthly_pipeline thirteen_months)"
    by (simp only: list_all_iff)
  from h1 h2 c d' e' r show ?thesis
    by (intro conjI)
qed

end
